theory Spec2Isabelle
  imports Complex_Main "HOL-Library.Word"
begin

section \<open>Data model\<close>

text \<open>
  The vector layer of zscilib (the file \<^verbatim>\<open>vectors.c\<close>) and, from the declarations of
  \<^verbatim>\<open>zsl/matrices.h\<close> and the specification, the determinant and inverse of its matrix
  layer.  A vector or matrix is a view on a caller-owned buffer: the buffer is modelled as
  the list of its slots, so \<open>length (data v)\<close> is the capacity of the backing storage,
  which is independent of the declared length \<open>sz v\<close>.

  \<^item> \<^verbatim>\<open>size_t\<close> is a 64-bit unsigned word (the standalone sample is built with the host gcc),
    \<^verbatim>\<open>int\<close> is a 32-bit signed word.
  \<^item> \<^verbatim>\<open>zsl_real_t\<close> is idealised as a real number: rounding and not-a-number operands are
    outside the model, and so is the finite range of the type, except where the code
    branches on a computed value: \<^verbatim>\<open>zsl_vec_norm\<close>, whose result \<^verbatim>\<open>zsl_vec_to_unit\<close>
    compares with zero, is modelled with overflow to infinity and underflow to zero.  The
    one not-a-number the code produces itself, the \<^verbatim>\<open>NAN\<close> returned by \<^verbatim>\<open>zsl_vec_dist\<close>,
    is a value of its own.
  \<^item> A function returning \<^verbatim>\<open>int\<close> and updating a vector through a pointer returns
    \<open>Some (rc, v')\<close>: the return code and the vector after the call.  \<open>None\<close> is undefined
    behaviour: an access outside the backing buffer.
  \<^item> The arguments of one call are distinct objects (no two pointers alias).
  \<^item> \<^verbatim>\<open>CONFIG_ZSL_BOUNDS_CHECKS\<close> is a build-time switch that no file of the repository
    sets; the functions whose body depends on it take it as their first argument \<open>chk\<close>.
\<close>

type_synonym size_t = "64 word"

type_synonym zsl_real_t = real

text \<open>
  \<^verbatim>\<open>struct zsl_mtx\<close> of \<^verbatim>\<open>zsl/matrices.h\<close>: the row and column counts and the buffer, in
  row-major order.  Its field \<open>data\<close> is written \<open>zsl_mtx.data\<close>; the plain name is the field
  of \<open>zsl_vec\<close>.
\<close>

record zsl_mtx =
  sz_rows :: size_t
  sz_cols :: size_t
  data :: "zsl_real_t list"

text \<open>
  Modelled from the spec: \<^verbatim>\<open>struct zsl_vec\<close> is declared in \<^verbatim>\<open>zsl/vectors.h\<close>, which is
  missing.  ``Vector: a logical length n plus a reference to a buffer of at least n
  real-number slots it does not own''; the fields are the two that \<^verbatim>\<open>vectors.c\<close> reads and
  writes, \<^verbatim>\<open>v->sz\<close> and \<^verbatim>\<open>v->data\<close>.
\<close>

record zsl_vec =
  sz :: size_t
  data :: "zsl_real_t list"

text \<open>\<^verbatim>\<open>EINVAL\<close> of \<^verbatim>\<open>errno.h\<close>.\<close>

definition EINVAL :: int where
  "EINVAL = 22"

text \<open>\<^verbatim>\<open>sizeof(zsl_real_t)\<close> in the default (double precision) build.\<close>

definition sizeof_zsl_real_t :: size_t where
  "sizeof_zsl_real_t = 8"

text \<open>
  The invariant of the data model: the declared length does not exceed the capacity of the
  backing buffer, and the buffer, like every C object, has a size in bytes that a
  \<^verbatim>\<open>size_t\<close> can hold.
\<close>

definition wf_vec :: "zsl_vec \<Rightarrow> bool" where
  "wf_vec v \<longleftrightarrow> unat (sz v) \<le> length (data v) \<and> length (data v) * 8 < 2 ^ 64"

text \<open>A matrix buffer holds at least rows times columns slots.\<close>

definition wf_mtx :: "zsl_mtx \<Rightarrow> bool" where
  "wf_mtx m \<longleftrightarrow> unat (sz_rows m) * unat (sz_cols m) \<le> length (zsl_mtx.data m)"

section \<open>Vector operations\<close>

subsection \<open>\<^verbatim>\<open>memset\<close> and \<^verbatim>\<open>memcpy\<close> on buffers of \<^verbatim>\<open>zsl_real_t\<close>\<close>

text \<open>
  Both take a byte count, which every caller computes as a number of elements times
  \<^verbatim>\<open>sizeof(zsl_real_t)\<close> in \<^verbatim>\<open>size_t\<close> arithmetic: the count is a multiple of the element
  size, and the product wraps around.  \<open>memcpy_real dst src off nbytes\<close> is
  \<^verbatim>\<open>memcpy(dst, &src[off], nbytes)\<close>.
\<close>

definition memset_zero :: "zsl_real_t list \<Rightarrow> size_t \<Rightarrow> zsl_real_t list option" where
  "memset_zero d nbytes =
     (let k = unat nbytes div unat sizeof_zsl_real_t in
      if k \<le> length d then Some (replicate k 0 @ drop k d) else None)"

definition memcpy_real ::
  "zsl_real_t list \<Rightarrow> zsl_real_t list \<Rightarrow> nat \<Rightarrow> size_t \<Rightarrow> zsl_real_t list option" where
  "memcpy_real dst src off nbytes =
     (let k = unat nbytes div unat sizeof_zsl_real_t in
      if k \<le> length dst \<and> off + k \<le> length src
      then Some (take k (drop off src) @ drop k dst) else None)"

subsection \<open>\<^verbatim>\<open>zsl_vec_init\<close>\<close>

definition zsl_vec_init :: "zsl_vec \<Rightarrow> (int \<times> zsl_vec) option" where
  "zsl_vec_init v =
     (case memset_zero (data v) (sz v * sizeof_zsl_real_t) of
        None \<Rightarrow> None
      | Some d \<Rightarrow> Some (0, v\<lparr>data := d\<rparr>))"

subsection \<open>\<^verbatim>\<open>zsl_vec_get_subset\<close>\<close>

definition zsl_vec_get_subset ::
  "bool \<Rightarrow> zsl_vec \<Rightarrow> size_t \<Rightarrow> size_t \<Rightarrow> zsl_vec \<Rightarrow> (int \<times> zsl_vec) option" where
  "zsl_vec_get_subset chk v offset len vsub =
     (if chk \<and> offset \<ge> sz v then Some (- EINVAL, vsub)
      else
        let len1 = (if chk \<and> offset + len \<ge> sz v then sz v - offset else len) in
        if chk \<and> sz vsub < len1 then Some (- EINVAL, vsub)
        else
          let vsub1 = (if sz vsub > len1 then vsub\<lparr>sz := len1\<rparr> else vsub) in
          (case memcpy_real (data vsub1) (data v) (unat offset) (len1 * sizeof_zsl_real_t) of
             None \<Rightarrow> None
           | Some d \<Rightarrow> Some (0, vsub1\<lparr>data := d\<rparr>)))"

subsection \<open>\<^verbatim>\<open>zsl_vec_add\<close>, \<^verbatim>\<open>zsl_vec_sub\<close>, \<^verbatim>\<open>zsl_vec_neg\<close>\<close>

function zsl_vec_add_loop ::
  "nat \<Rightarrow> nat \<Rightarrow> zsl_real_t list \<Rightarrow> zsl_real_t list \<Rightarrow> zsl_real_t list \<Rightarrow> zsl_real_t list option"
  where
  "zsl_vec_add_loop i n dv dw dx =
     (if i < n then
        (if i < length dv \<and> i < length dw \<and> i < length dx
         then zsl_vec_add_loop (Suc i) n dv dw (dx[i := dv ! i + dw ! i])
         else None)
      else Some dx)"
  by pat_completeness auto
termination
  by (relation "measure (\<lambda>(i, n, dv, dw, dx). n - i)") auto

declare zsl_vec_add_loop.simps [simp del]

definition zsl_vec_add :: "bool \<Rightarrow> zsl_vec \<Rightarrow> zsl_vec \<Rightarrow> zsl_vec \<Rightarrow> (int \<times> zsl_vec) option" where
  "zsl_vec_add chk v w x =
     (if chk \<and> (sz v \<noteq> sz w \<or> sz v \<noteq> sz x) then Some (- EINVAL, x)
      else (case zsl_vec_add_loop 0 (unat (sz v)) (data v) (data w) (data x) of
              None \<Rightarrow> None
            | Some d \<Rightarrow> Some (0, x\<lparr>data := d\<rparr>)))"

function zsl_vec_sub_loop ::
  "nat \<Rightarrow> nat \<Rightarrow> zsl_real_t list \<Rightarrow> zsl_real_t list \<Rightarrow> zsl_real_t list \<Rightarrow> zsl_real_t list option"
  where
  "zsl_vec_sub_loop i n dv dw dx =
     (if i < n then
        (if i < length dv \<and> i < length dw \<and> i < length dx
         then zsl_vec_sub_loop (Suc i) n dv dw (dx[i := dv ! i - dw ! i])
         else None)
      else Some dx)"
  by pat_completeness auto
termination
  by (relation "measure (\<lambda>(i, n, dv, dw, dx). n - i)") auto

declare zsl_vec_sub_loop.simps [simp del]

definition zsl_vec_sub :: "bool \<Rightarrow> zsl_vec \<Rightarrow> zsl_vec \<Rightarrow> zsl_vec \<Rightarrow> (int \<times> zsl_vec) option" where
  "zsl_vec_sub chk v w x =
     (if chk \<and> (sz v \<noteq> sz w \<or> sz v \<noteq> sz x) then Some (- EINVAL, x)
      else (case zsl_vec_sub_loop 0 (unat (sz v)) (data v) (data w) (data x) of
              None \<Rightarrow> None
            | Some d \<Rightarrow> Some (0, x\<lparr>data := d\<rparr>)))"

function zsl_vec_neg_loop :: "nat \<Rightarrow> nat \<Rightarrow> zsl_real_t list \<Rightarrow> zsl_real_t list option" where
  "zsl_vec_neg_loop i n d =
     (if i < n then
        (if i < length d then zsl_vec_neg_loop (Suc i) n (d[i := - d ! i]) else None)
      else Some d)"
  by pat_completeness auto
termination
  by (relation "measure (\<lambda>(i, n, d). n - i)") auto

declare zsl_vec_neg_loop.simps [simp del]

definition zsl_vec_neg :: "zsl_vec \<Rightarrow> (int \<times> zsl_vec) option" where
  "zsl_vec_neg v =
     (case zsl_vec_neg_loop 0 (unat (sz v)) (data v) of
        None \<Rightarrow> None
      | Some d \<Rightarrow> Some (0, v\<lparr>data := d\<rparr>))"

subsection \<open>\<^verbatim>\<open>zsl_vec_sum\<close>\<close>

text \<open>
  \<^verbatim>\<open>v\<close> is an array of \<^verbatim>\<open>n\<close> pointers to vectors: the list \<open>vs\<close>, read at \<open>i\<close> only when
  \<open>i < length vs\<close>.  The local \<^verbatim>\<open>sz_last\<close> is an \<^verbatim>\<open>int\<close>: the assignment from
  \<^verbatim>\<open>v[0]->sz\<close> keeps the low 32 bits, and the comparison with a \<^verbatim>\<open>size_t\<close> and the
  assignment to \<^verbatim>\<open>w->sz\<close> sign-extend it again.
\<close>

function zsl_vec_sum_check :: "nat \<Rightarrow> nat \<Rightarrow> 32 word \<Rightarrow> zsl_vec list \<Rightarrow> bool option" where
  "zsl_vec_sum_check i n sz_last vs =
     (if i < n then
        (if i < length vs then
           (if (scast sz_last :: size_t) \<noteq> sz (vs ! i) then Some False
            else zsl_vec_sum_check (Suc i) n sz_last vs)
         else None)
      else Some True)"
  by pat_completeness auto
termination
  by (relation "measure (\<lambda>(i, n, sz_last, vs). n - i)") auto

declare zsl_vec_sum_check.simps [simp del]

function zsl_vec_sum_inner ::
  "nat \<Rightarrow> nat \<Rightarrow> zsl_real_t list \<Rightarrow> zsl_real_t list \<Rightarrow> zsl_real_t list option" where
  "zsl_vec_sum_inner j m dv dw =
     (if j < m then
        (if j < length dv \<and> j < length dw
         then zsl_vec_sum_inner (Suc j) m dv (dw[j := dw ! j + dv ! j])
         else None)
      else Some dw)"
  by pat_completeness auto
termination
  by (relation "measure (\<lambda>(j, m, dv, dw). m - j)") auto

declare zsl_vec_sum_inner.simps [simp del]

function zsl_vec_sum_outer ::
  "nat \<Rightarrow> nat \<Rightarrow> nat \<Rightarrow> zsl_vec list \<Rightarrow> zsl_real_t list \<Rightarrow> zsl_real_t list option" where
  "zsl_vec_sum_outer i n m vs dw =
     (if i < n then
        (if i < length vs then
           (case zsl_vec_sum_inner 0 m (data (vs ! i)) dw of
              None \<Rightarrow> None
            | Some dw' \<Rightarrow> zsl_vec_sum_outer (Suc i) n m vs dw')
         else None)
      else Some dw)"
  by pat_completeness auto
termination
  by (relation "measure (\<lambda>(i, n, m, vs, dw). n - i)") auto

declare zsl_vec_sum_outer.simps [simp del]

definition zsl_vec_sum ::
  "bool \<Rightarrow> zsl_vec list \<Rightarrow> size_t \<Rightarrow> zsl_vec \<Rightarrow> (int \<times> zsl_vec) option" where
  "zsl_vec_sum chk vs n w =
     (if n = 0 then Some (- EINVAL, w)
      else if vs = [] then None
      else
        let sz_last = (ucast (sz (vs ! 0)) :: 32 word) in
        (case (if chk then zsl_vec_sum_check 0 (unat n) sz_last vs else Some True) of
           None \<Rightarrow> None
         | Some False \<Rightarrow> Some (- EINVAL, w)
         | Some True \<Rightarrow>
             let w1 = w\<lparr>sz := scast sz_last\<rparr> in
             (case zsl_vec_sum_outer 0 (unat n) (unat (sz w1)) vs (data w1) of
                None \<Rightarrow> None
              | Some d \<Rightarrow> Some (0, w1\<lparr>data := d\<rparr>))))"

subsection \<open>\<^verbatim>\<open>zsl_vec_scalar_mult\<close>, \<^verbatim>\<open>zsl_vec_scalar_div\<close>\<close>

function zsl_vec_scalar_mult_loop ::
  "nat \<Rightarrow> nat \<Rightarrow> zsl_real_t \<Rightarrow> zsl_real_t list \<Rightarrow> zsl_real_t list option" where
  "zsl_vec_scalar_mult_loop i n s d =
     (if i < n then
        (if i < length d then zsl_vec_scalar_mult_loop (Suc i) n s (d[i := d ! i * s])
         else None)
      else Some d)"
  by pat_completeness auto
termination
  by (relation "measure (\<lambda>(i, n, s, d). n - i)") auto

declare zsl_vec_scalar_mult_loop.simps [simp del]

definition zsl_vec_scalar_mult :: "zsl_vec \<Rightarrow> zsl_real_t \<Rightarrow> (int \<times> zsl_vec) option" where
  "zsl_vec_scalar_mult v s =
     (case zsl_vec_scalar_mult_loop 0 (unat (sz v)) s (data v) of
        None \<Rightarrow> None
      | Some d \<Rightarrow> Some (0, v\<lparr>data := d\<rparr>))"

function zsl_vec_scalar_div_loop ::
  "nat \<Rightarrow> nat \<Rightarrow> zsl_real_t \<Rightarrow> zsl_real_t list \<Rightarrow> zsl_real_t list option" where
  "zsl_vec_scalar_div_loop i n s d =
     (if i < n then
        (if i < length d then zsl_vec_scalar_div_loop (Suc i) n s (d[i := d ! i / s])
         else None)
      else Some d)"
  by pat_completeness auto
termination
  by (relation "measure (\<lambda>(i, n, s, d). n - i)") auto

declare zsl_vec_scalar_div_loop.simps [simp del]

definition zsl_vec_scalar_div :: "zsl_vec \<Rightarrow> zsl_real_t \<Rightarrow> (int \<times> zsl_vec) option" where
  "zsl_vec_scalar_div v s =
     (if s = 0 then Some (- EINVAL, v)
      else (case zsl_vec_scalar_div_loop 0 (unat (sz v)) s (data v) of
              None \<Rightarrow> None
            | Some d \<Rightarrow> Some (0, v\<lparr>data := d\<rparr>)))"

subsection \<open>\<^verbatim>\<open>zsl_vec_dot\<close>, \<^verbatim>\<open>zsl_vec_sum_of_sqrs\<close>, \<^verbatim>\<open>zsl_vec_magn\<close>\<close>






subsection \<open>\<^verbatim>\<open>zsl_vec_norm\<close>\<close>

text \<open>
  \<^verbatim>\<open>zsl_vec_to_unit\<close> branches on the value that \<^verbatim>\<open>zsl_vec_norm\<close> computes, so here the
  range of \<^verbatim>\<open>zsl_real_t\<close> (binary64 in the default build, rounding to nearest) is part of
  the model: a result of \<open>2^1024 - 2^970\<close> or more is stored as infinity and a result of
  \<open>2^-1075\<close> or less as zero; a result in between is taken as it is, the precision of 53
  bits staying idealised.  All results in \<^verbatim>\<open>zsl_vec_norm\<close> are squares, sums of squares and
  their square root, none of them negative.
\<close>

datatype zsl_computed = Finite zsl_real_t | Infinite

definition DBL_OVERFLOW :: real where
  "DBL_OVERFLOW = 2 ^ 1024 - 2 ^ 970"

definition DBL_UNDERFLOW :: real where
  "DBL_UNDERFLOW = 1 / 2 ^ 1075"

definition fl_range :: "real \<Rightarrow> zsl_computed" where
  "fl_range x =
     (if DBL_OVERFLOW \<le> x then Infinite
      else if x \<le> DBL_UNDERFLOW then Finite 0
      else Finite x)"

fun fl_add :: "zsl_computed \<Rightarrow> zsl_computed \<Rightarrow> zsl_computed" where
  "fl_add (Finite a) (Finite b) = fl_range (a + b)"
| "fl_add (Finite a) Infinite = Infinite"
| "fl_add Infinite b = Infinite"

fun fl_sqrt :: "zsl_computed \<Rightarrow> zsl_computed" where
  "fl_sqrt (Finite a) = Finite (sqrt a)"
| "fl_sqrt Infinite = Infinite"

text \<open>\<^verbatim>\<open>1.0/mag\<close>, stored in a \<^verbatim>\<open>zsl_real_t\<close> argument: \<^verbatim>\<open>1.0/inf\<close> is 0.\<close>

fun fl_recip :: "zsl_computed \<Rightarrow> zsl_real_t" where
  "fl_recip (Finite m) = 1 / m"
| "fl_recip Infinite = 0"

function zsl_vec_norm_loop ::
  "nat \<Rightarrow> nat \<Rightarrow> zsl_real_t list \<Rightarrow> zsl_computed \<Rightarrow> zsl_computed option" where
  "zsl_vec_norm_loop i n d acc =
     (if i < n then
        (if i < length d
         then zsl_vec_norm_loop (Suc i) n d (fl_add acc (fl_range (d ! i * d ! i)))
         else None)
      else Some acc)"
  by pat_completeness auto
termination
  by (relation "measure (\<lambda>(i, n, d, acc). n - i)") auto

declare zsl_vec_norm_loop.simps [simp del]

definition zsl_vec_norm :: "zsl_vec \<Rightarrow> zsl_computed option" where
  "zsl_vec_norm v =
     map_option fl_sqrt (zsl_vec_norm_loop 0 (unat (sz v)) (data v) (Finite 0))"

text \<open>
  What a square adds to the running sum as long as nothing overflows: the square itself, or
  zero when it underflows.  The proofs describe the computed norm through it.
\<close>

definition flushed :: "real \<Rightarrow> real" where
  "flushed y = (if y \<le> DBL_UNDERFLOW then 0 else y)"

subsection \<open>\<^verbatim>\<open>zsl_vec_dist\<close>\<close>



subsection \<open>\<^verbatim>\<open>zsl_vec_to_unit\<close>\<close>

text \<open>
  The guard \<^verbatim>\<open>mag != 0.0\<close> reads the computed norm: an infinite norm passes it, and
  \<^verbatim>\<open>1.0/mag\<close> is then zero.  The write \<^verbatim>\<open>v->data[0] = 1.0\<close> of the other branch is not
  guarded by \<^verbatim>\<open>v->sz\<close>; it needs a buffer of at least one slot.
\<close>

definition zsl_vec_to_unit :: "zsl_vec \<Rightarrow> (int \<times> zsl_vec) option" where
  "zsl_vec_to_unit v =
     (case zsl_vec_norm v of
        None \<Rightarrow> None
      | Some mag \<Rightarrow>
          if mag \<noteq> Finite 0 then
            (case zsl_vec_scalar_mult v (fl_recip mag) of
               None \<Rightarrow> None
             | Some (rc, v') \<Rightarrow> Some (0, v'))
          else
            (case zsl_vec_init v of
               None \<Rightarrow> None
             | Some (rc, v') \<Rightarrow>
                 if 0 < length (data v') then Some (0, v'\<lparr>data := (data v')[0 := 1]\<rparr>)
                 else None))"

subsection \<open>\<^verbatim>\<open>zsl_vec_cross\<close>\<close>

definition zsl_vec_cross :: "bool \<Rightarrow> zsl_vec \<Rightarrow> zsl_vec \<Rightarrow> zsl_vec \<Rightarrow> (int \<times> zsl_vec) option" where
  "zsl_vec_cross chk v w c =
     (if chk \<and> (sz v \<noteq> 3 \<or> sz w \<noteq> 3 \<or> sz c \<noteq> 3) then Some (- EINVAL, c)
      else if 3 \<le> length (data v) \<and> 3 \<le> length (data w) \<and> 3 \<le> length (data c) then
        Some (0, c\<lparr>data := (data c)
          [0 := data v ! 1 * data w ! 2 - data v ! 2 * data w ! 1,
           1 := data v ! 2 * data w ! 0 - data v ! 0 * data w ! 2,
           2 := data v ! 0 * data w ! 1 - data v ! 1 * data w ! 0]\<rparr>)
      else None)"

subsection \<open>\<^verbatim>\<open>zsl_vec_mean\<close>\<close>

text \<open>
  In \<^verbatim>\<open>1/n\<close> the literal is an \<^verbatim>\<open>int\<close> and \<^verbatim>\<open>n\<close> a \<^verbatim>\<open>size_t\<close>: the division is the
  unsigned integer division, and its quotient is converted to \<^verbatim>\<open>zsl_real_t\<close> for the call.
  The return code of \<^verbatim>\<open>zsl_vec_scalar_mult\<close> is stored and not used.
\<close>

definition zsl_vec_mean ::
  "bool \<Rightarrow> zsl_vec list \<Rightarrow> size_t \<Rightarrow> zsl_vec \<Rightarrow> (int \<times> zsl_vec) option" where
  "zsl_vec_mean chk vs n m =
     (if chk \<and> vs = [] then None
      else if chk \<and> sz m \<noteq> sz (vs ! 0) then Some (- EINVAL, m)
      else
        (case zsl_vec_sum chk vs n m of
           None \<Rightarrow> None
         | Some (rc, m1) \<Rightarrow>
             if rc \<noteq> 0 then Some (rc, m1)
             else
               (case zsl_vec_scalar_mult m1 (of_nat (unat ((1 :: size_t) div n))) of
                  None \<Rightarrow> None
                | Some (rc', m2) \<Rightarrow> Some (0, m2))))"

subsection \<open>\<^verbatim>\<open>zsl_vec_rev\<close>\<close>

text \<open>
  \<^verbatim>\<open>start\<close> and \<^verbatim>\<open>end\<close> are \<^verbatim>\<open>size_t\<close>: \<^verbatim>\<open>v->sz - 1\<close> wraps around when \<^verbatim>\<open>v->sz\<close> is 0.
\<close>

function zsl_vec_rev_loop :: "size_t \<Rightarrow> size_t \<Rightarrow> zsl_real_t list \<Rightarrow> zsl_real_t list option" where
  "zsl_vec_rev_loop start end' d =
     (if start < end' then
        (if unat start < length d \<and> unat end' < length d
         then zsl_vec_rev_loop (start + 1) (end' - 1)
                (d[unat start := d ! unat end', unat end' := d ! unat start])
         else None)
      else Some d)"
  by pat_completeness auto
termination
proof (relation "measure (\<lambda>(start, end', d). unat end' - unat start)")
  show "wf (measure (\<lambda>(start, end', d). unat end' - unat start))"
    by simp
next
  fix start end' :: size_t and d :: "zsl_real_t list"
  assume lt: "start < end'"
  then have "unat start < unat end'"
    by (simp add: word_less_nat_alt)
  moreover have "unat (start + 1) = unat start + 1"
    using lt by unat_arith
  moreover have "unat (end' - 1) = unat end' - 1"
    using lt by unat_arith
  ultimately show "((start + 1, end' - 1,
      d[unat start := d ! unat end', unat end' := d ! unat start]), start, end', d)
    \<in> measure (\<lambda>(start, end', d). unat end' - unat start)"
    by simp
qed

declare zsl_vec_rev_loop.simps [simp del]

definition zsl_vec_rev :: "zsl_vec \<Rightarrow> (int \<times> zsl_vec) option" where
  "zsl_vec_rev v =
     (case zsl_vec_rev_loop 0 (sz v - 1) (data v) of
        None \<Rightarrow> None
      | Some d \<Rightarrow> Some (0, v\<lparr>data := d\<rparr>))"

section \<open>Matrix operations\<close>

text \<open>
  \<^verbatim>\<open>zsl/matrices.h\<close> declares \<^verbatim>\<open>zsl_mtx_minor\<close>, \<^verbatim>\<open>zsl_mtx_cofactor\<close>, \<^verbatim>\<open>zsl_mtx_adjoint\<close>,
  \<^verbatim>\<open>zsl_mtx_deter_recur\<close>, \<^verbatim>\<open>zsl_mtx_inv\<close> and \<^verbatim>\<open>zsl_mtx_mult\<close>; their bodies
  (\<^verbatim>\<open>src/matrices.c\<close>) are not among the sources.  They are modelled from the
  specification, on the entries of the matrix read in row-major order.  Row and column
  indices are natural numbers, results are values, and the outcome of an operation with an
  output matrix is \<open>Some (status, output after the call)\<close>, or \<open>None\<close> when a buffer is
  shorter than its shape.
\<close>

definition zsl_mtx_entry :: "zsl_mtx \<Rightarrow> nat \<Rightarrow> nat \<Rightarrow> zsl_real_t" where
  "zsl_mtx_entry m = (\<lambda>i j. zsl_mtx.data m ! (i * unat (sz_cols m) + j))"

text \<open>The entries of the submatrix formed by deleting row \<open>i\<close> and column \<open>j\<close>.\<close>

definition skip :: "nat \<Rightarrow> nat \<Rightarrow> nat" where
  "skip i r = (if r < i then r else Suc r)"

definition del_row_col ::
  "nat \<Rightarrow> nat \<Rightarrow> (nat \<Rightarrow> nat \<Rightarrow> zsl_real_t) \<Rightarrow> nat \<Rightarrow> nat \<Rightarrow> zsl_real_t" where
  "del_row_col i j a = (\<lambda>r c. a (skip i r) (skip j c))"

text \<open>
  Modelled from the spec: the body of \<^verbatim>\<open>zsl_mtx_deter_recur\<close> is missing.  ``Determinant
  (recursive cofactor expansion): base case 1x1 returns the sole element; base case 2x2
  returns ad - bc; general case expands along the first row, summing element * cofactor'',
  the cofactor being the minor scaled by \<open>(-1)^(i+j)\<close>.  The specification names no value
  for order 0, which the minors of a 1x1 matrix have: the model takes 1, the one value for
  which the expansion along the first row of a 1x1 matrix agrees with its base case.
\<close>

fun deter_recur :: "nat \<Rightarrow> (nat \<Rightarrow> nat \<Rightarrow> zsl_real_t) \<Rightarrow> zsl_real_t" where
  "deter_recur n a =
     (if n = 0 then 1
      else if n = 1 then a 0 0
      else if n = 2 then a 0 0 * a 1 1 - a 0 1 * a 1 0
      else (\<Sum>j<n. a 0 j * ((- 1) ^ (0 + j) * deter_recur (n - 1) (del_row_col 0 j a))))"

declare deter_recur.simps [simp del]

definition zsl_mtx_deter_recur :: "zsl_mtx \<Rightarrow> zsl_real_t" where
  "zsl_mtx_deter_recur m = deter_recur (unat (sz_rows m)) (zsl_mtx_entry m)"

text \<open>
  Modelled from the spec: the body of \<^verbatim>\<open>zsl_mtx_minor\<close> is missing.  ``Minor: the
  determinant of the submatrix formed by deleting row i and column j.''
\<close>

definition zsl_mtx_minor :: "zsl_mtx \<Rightarrow> nat \<Rightarrow> nat \<Rightarrow> zsl_real_t" where
  "zsl_mtx_minor m i j =
     deter_recur (unat (sz_rows m) - 1) (del_row_col i j (zsl_mtx_entry m))"

text \<open>
  Modelled from the spec: the body of \<^verbatim>\<open>zsl_mtx_cofactor\<close> is missing.  ``Cofactor: minor
  scaled by \<open>(-1)^(i+j)\<close>.''
\<close>

definition zsl_mtx_cofactor :: "zsl_mtx \<Rightarrow> nat \<Rightarrow> nat \<Rightarrow> zsl_real_t" where
  "zsl_mtx_cofactor m i j = (- 1) ^ (i + j) * zsl_mtx_minor m i j"

text \<open>
  Modelled from the spec: the body of \<^verbatim>\<open>zsl_mtx_adjoint\<close> is missing.  ``Adjoint/adjugate:
  transpose of the cofactor matrix.''
\<close>

definition zsl_mtx_adjoint :: "zsl_mtx \<Rightarrow> nat \<Rightarrow> nat \<Rightarrow> zsl_real_t" where
  "zsl_mtx_adjoint m i j = zsl_mtx_cofactor m j i"

text \<open>The outcomes of the specification's error taxonomy that the two operations below have.\<close>

datatype zsl_status = Ok | ShapeMismatch | Singular

text \<open>
  Modelled from the spec: the body of \<^verbatim>\<open>zsl_mtx_mult\<close> is missing.  ``mult: standard
  row-by-column dot-product; requires left column count equal to right row count; output
  shape is left-rows x right-cols.''
\<close>

definition zsl_mtx_mult ::
  "zsl_mtx \<Rightarrow> zsl_mtx \<Rightarrow> zsl_mtx \<Rightarrow> (zsl_status \<times> zsl_mtx) option" where
  "zsl_mtx_mult ma mb mc =
     (let r = unat (sz_rows ma); k = unat (sz_cols ma); c = unat (sz_cols mb) in
      if sz_cols ma \<noteq> sz_rows mb \<or> sz_rows mc \<noteq> sz_rows ma \<or> sz_cols mc \<noteq> sz_cols mb
      then Some (ShapeMismatch, mc)
      else if length (zsl_mtx.data ma) < r * k \<or> length (zsl_mtx.data mb) < k * c \<or>
              length (zsl_mtx.data mc) < r * c
      then None
      else Some (Ok, mc\<lparr>zsl_mtx.data :=
        map (\<lambda>p. \<Sum>l<k. zsl_mtx_entry ma (p div c) l * zsl_mtx_entry mb l (p mod c)) [0..<r * c] @
        drop (r * c) (zsl_mtx.data mc)\<rparr>))"

text \<open>
  Modelled from the spec: the body of \<^verbatim>\<open>zsl_mtx_inv\<close> is missing.  ``Inverse via the
  adjugate method: inverse = adjugate / determinant; rejects with a singular-matrix error
  when the determinant is exactly zero''; the subsystem ``requires square matrices
  throughout'', a non-square or incompatibly shaped operand being a shape mismatch.
\<close>

definition zsl_mtx_inv :: "zsl_mtx \<Rightarrow> zsl_mtx \<Rightarrow> (zsl_status \<times> zsl_mtx) option" where
  "zsl_mtx_inv m mi =
     (let n = unat (sz_rows m) in
      if sz_rows m \<noteq> sz_cols m \<or> sz_rows mi \<noteq> sz_rows m \<or> sz_cols mi \<noteq> sz_cols m
      then Some (ShapeMismatch, mi)
      else if length (zsl_mtx.data m) < n * n \<or> length (zsl_mtx.data mi) < n * n
      then None
      else
        let d = zsl_mtx_deter_recur m in
        if d = 0 then Some (Singular, mi)
        else Some (Ok, mi\<lparr>zsl_mtx.data :=
          map (\<lambda>p. zsl_mtx_adjoint m (p div n) (p mod n) / d) [0..<n * n] @
          drop (n * n) (zsl_mtx.data mi)\<rparr>))"

subsection \<open>Auxiliary notions for the proofs about determinants\<close>

text \<open>The expansion along the first row at every order.\<close>

primrec det :: "nat \<Rightarrow> (nat \<Rightarrow> nat \<Rightarrow> real) \<Rightarrow> real" where
  "det 0 a = 1"
| "det (Suc n) a = (\<Sum>j<Suc n. (- 1) ^ j * a 0 j * det n (del_row_col 0 j a))"

text \<open>Row \<open>j\<close> moved in front of the rows above it.\<close>

definition row_to_top :: "nat \<Rightarrow> (nat \<Rightarrow> nat \<Rightarrow> real) \<Rightarrow> nat \<Rightarrow> nat \<Rightarrow> real" where
  "row_to_top j a = (\<lambda>r. if r = 0 then a j else if r \<le> j then a (r - 1) else a r)"

section \<open>Properties\<close>

subsection \<open>Element-wise loops\<close>

lemma zsl_vec_scalar_div_loop_eq:
  "n \<le> length d \<Longrightarrow>
   zsl_vec_scalar_div_loop i n s d =
     Some (map (\<lambda>j. if i \<le> j \<and> j < n then d ! j / s else d ! j) [0..<length d])"
proof (induction i n s d rule: zsl_vec_scalar_div_loop.induct)
  case (1 i n s d)
  show ?case
  proof (cases "i < n")
    case True
    with "1.prems" have il: "i < length d" by simp
    have "zsl_vec_scalar_div_loop i n s d =
          zsl_vec_scalar_div_loop (Suc i) n s (d[i := d ! i / s])"
      using True il by (subst zsl_vec_scalar_div_loop.simps) simp
    also have "\<dots> = Some (map (\<lambda>j. if Suc i \<le> j \<and> j < n
                 then (d[i := d ! i / s]) ! j / s else (d[i := d ! i / s]) ! j)
                 [0..<length (d[i := d ! i / s])])"
      using "1.IH" [OF True il] "1.prems" by simp
    also have "\<dots> = Some (map (\<lambda>j. if i \<le> j \<and> j < n then d ! j / s else d ! j) [0..<length d])"
      using True il by (auto simp: nth_list_update)
    finally show ?thesis .
  next
    case False
    then show ?thesis
      by (subst zsl_vec_scalar_div_loop.simps) (auto intro!: nth_equalityI)
  qed
qed

lemma zsl_vec_add_loop_eq:
  "n \<le> length dv \<Longrightarrow> n \<le> length dw \<Longrightarrow> n \<le> length dx \<Longrightarrow>
   zsl_vec_add_loop i n dv dw dx =
     Some (map (\<lambda>j. if i \<le> j \<and> j < n then dv ! j + dw ! j else dx ! j) [0..<length dx])"
proof (induction i n dv dw dx rule: zsl_vec_add_loop.induct)
  case (1 i n dv dw dx)
  then show ?case
    by (subst zsl_vec_add_loop.simps) (auto simp: nth_list_update intro!: nth_equalityI)
qed

lemma zsl_vec_sub_loop_eq:
  "n \<le> length dv \<Longrightarrow> n \<le> length dw \<Longrightarrow> n \<le> length dx \<Longrightarrow>
   zsl_vec_sub_loop i n dv dw dx =
     Some (map (\<lambda>j. if i \<le> j \<and> j < n then dv ! j - dw ! j else dx ! j) [0..<length dx])"
proof (induction i n dv dw dx rule: zsl_vec_sub_loop.induct)
  case (1 i n dv dw dx)
  then show ?case
    by (subst zsl_vec_sub_loop.simps) (auto simp: nth_list_update intro!: nth_equalityI)
qed

lemma zsl_vec_neg_loop_eq:
  "n \<le> length d \<Longrightarrow>
   zsl_vec_neg_loop i n d =
     Some (map (\<lambda>j. if i \<le> j \<and> j < n then - d ! j else d ! j) [0..<length d])"
proof (induction i n d rule: zsl_vec_neg_loop.induct)
  case (1 i n d)
  then show ?case
    by (subst zsl_vec_neg_loop.simps) (auto simp: nth_list_update intro!: nth_equalityI)
qed

lemma zsl_vec_scalar_mult_loop_eq:
  "n \<le> length d \<Longrightarrow>
   zsl_vec_scalar_mult_loop i n s d =
     Some (map (\<lambda>j. if i \<le> j \<and> j < n then d ! j * s else d ! j) [0..<length d])"
proof (induction i n s d rule: zsl_vec_scalar_mult_loop.induct)
  case (1 i n s d)
  then show ?case
    by (subst zsl_vec_scalar_mult_loop.simps) (auto simp: nth_list_update intro!: nth_equalityI)
qed

lemma zsl_vec_sum_inner_eq:
  "m \<le> length dv \<Longrightarrow> m \<le> length dw \<Longrightarrow>
   zsl_vec_sum_inner j m dv dw =
     Some (map (\<lambda>k. if j \<le> k \<and> k < m then dw ! k + dv ! k else dw ! k) [0..<length dw])"
proof (induction j m dv dw rule: zsl_vec_sum_inner.induct)
  case (1 j m dv dw)
  then show ?case
    by (subst zsl_vec_sum_inner.simps) (auto simp: nth_list_update intro!: nth_equalityI)
qed


subsection \<open>Division by a scalar\<close>

text \<open>
  C8.  \<^verbatim>\<open>zsl_vec_scalar_div\<close> returns \<^verbatim>\<open>-EINVAL\<close> if and only if the scalar is exactly zero,
  and then the vector is unchanged; for a nonzero scalar and a vector whose declared length
  fits its buffer it returns 0 and every element below the declared length has been divided
  by the scalar in place, the slots above it keeping their value.
\<close>

theorem zsl_vec_scalar_div_spec:
  "((\<exists>v'. zsl_vec_scalar_div v s = Some (- EINVAL, v')) \<longleftrightarrow> s = 0) \<and>
   (s = 0 \<longrightarrow> zsl_vec_scalar_div v s = Some (- EINVAL, v)) \<and>
   (s \<noteq> 0 \<and> wf_vec v \<longrightarrow>
      zsl_vec_scalar_div v s =
        Some (0, v\<lparr>data := map (\<lambda>j. if j < unat (sz v) then data v ! j / s else data v ! j)
                               [0..<length (data v)]\<rparr>))"
proof (intro conjI impI)
  show "(\<exists>v'. zsl_vec_scalar_div v s = Some (- EINVAL, v')) \<longleftrightarrow> s = 0"
    by (auto simp: zsl_vec_scalar_div_def EINVAL_def split: option.splits)
  show "s = 0 \<Longrightarrow> zsl_vec_scalar_div v s = Some (- EINVAL, v)"
    by (simp add: zsl_vec_scalar_div_def)
  show "s \<noteq> 0 \<and> wf_vec v \<Longrightarrow>
      zsl_vec_scalar_div v s =
        Some (0, v\<lparr>data := map (\<lambda>j. if j < unat (sz v) then data v ! j / s else data v ! j)
                               [0..<length (data v)]\<rparr>)"
    by (simp add: zsl_vec_scalar_div_def wf_vec_def zsl_vec_scalar_div_loop_eq)
qed

theorem zsl_vec_scalar_div_spec_witness:
  "zsl_vec_scalar_div \<lparr>sz = 2, data = [6, 8, 5]\<rparr> 0 = Some (- EINVAL, \<lparr>sz = 2, data = [6, 8, 5]\<rparr>) \<and>
   zsl_vec_scalar_div \<lparr>sz = 2, data = [6, 8, 5]\<rparr> 2 = Some (0, \<lparr>sz = 2, data = [3, 4, 5]\<rparr>)"
proof -
  have w: "wf_vec \<lparr>sz = 2, data = [6, 8, 5]\<rparr>"
    by (simp add: wf_vec_def)
  have u: "[0..<3] = [0, 1, 2]"
    by (simp add: upt_rec)
  show ?thesis
    using zsl_vec_scalar_div_spec [of "\<lparr>sz = 2, data = [6, 8, 5]\<rparr>" 0]
      zsl_vec_scalar_div_spec [of "\<lparr>sz = 2, data = [6, 8, 5]\<rparr>" 2] w u
    by simp
qed

subsection \<open>Addition and subtraction\<close>

text \<open>
  C7.  For vectors \<open>v\<close> and \<open>w\<close> of one declared length and outputs \<open>x\<close> and \<open>y\<close> of that
  length, \<^verbatim>\<open>zsl_vec_add(v, w, x)\<close> and \<^verbatim>\<open>zsl_vec_add(w, v, x)\<close> have the same outcome, the
  call succeeds with the element-wise sum in \<open>x\<close>, and \<^verbatim>\<open>zsl_vec_sub\<close> of that sum and \<open>w\<close>
  succeeds and gives back every element of \<open>v\<close>, with and without bounds checks.
\<close>

theorem zsl_vec_add_sub_spec:
  assumes "wf_vec v" and "wf_vec w" and "wf_vec x" and "wf_vec y"
    and "sz w = sz v" and "sz x = sz v" and "sz y = sz v"
  shows "zsl_vec_add chk v w x = zsl_vec_add chk w v x \<and>
    (\<exists>x'. zsl_vec_add chk v w x = Some (0, x') \<and> sz x' = sz v \<and>
       (\<forall>i < unat (sz v). data x' ! i = data v ! i + data w ! i) \<and>
       (\<exists>y'. zsl_vec_sub chk x' w y = Some (0, y') \<and> sz y' = sz v \<and>
          (\<forall>i < unat (sz v). data y' ! i = data v ! i)))"
proof -
  let ?n = "unat (sz v)"
  let ?dx = "map (\<lambda>j. if j < ?n then data v ! j + data w ! j else data x ! j)
               [0..<length (data x)]"
  have bv: "?n \<le> length (data v)" and bw: "?n \<le> length (data w)"
    and bx: "?n \<le> length (data x)" and by': "?n \<le> length (data y)"
    using assms by (simp_all add: wf_vec_def)
  have add1: "zsl_vec_add chk v w x = Some (0, x\<lparr>data := ?dx\<rparr>)"
    using assms(5,6) bv bw bx by (simp add: zsl_vec_add_def zsl_vec_add_loop_eq)
  have add2: "zsl_vec_add chk w v x = Some (0, x\<lparr>data := ?dx\<rparr>)"
    using assms(5,6) bv bw bx
    by (simp add: zsl_vec_add_def zsl_vec_add_loop_eq add.commute)
  have sub1: "zsl_vec_sub chk (x\<lparr>data := ?dx\<rparr>) w y =
      Some (0, y\<lparr>data := map (\<lambda>j. if j < ?n then ?dx ! j - data w ! j else data y ! j)
                             [0..<length (data y)]\<rparr>)"
    using assms(5,6,7) bw bx by' by (simp add: zsl_vec_sub_def zsl_vec_sub_loop_eq)
  have elt: "\<forall>i < ?n. map (\<lambda>j. if j < ?n then ?dx ! j - data w ! j else data y ! j)
                             [0..<length (data y)] ! i = data v ! i"
    using bx by' by simp
  have eltx: "\<forall>i < ?n. ?dx ! i = data v ! i + data w ! i"
    using bx by simp
  show ?thesis
    unfolding add1 add2 using sub1 elt eltx assms(6,7) by simp
qed

theorem zsl_vec_add_sub_spec_witness:
  "zsl_vec_add True \<lparr>sz = 2, data = [1, 2]\<rparr> \<lparr>sz = 2, data = [3, 5]\<rparr> \<lparr>sz = 2, data = [0, 0]\<rparr> =
   zsl_vec_add True \<lparr>sz = 2, data = [3, 5]\<rparr> \<lparr>sz = 2, data = [1, 2]\<rparr> \<lparr>sz = 2, data = [0, 0]\<rparr> \<and>
   zsl_vec_add True \<lparr>sz = 2, data = [1, 2]\<rparr> \<lparr>sz = 2, data = [3, 5]\<rparr> \<lparr>sz = 2, data = [0, 0]\<rparr> =
     Some (0, \<lparr>sz = 2, data = [4, 7]\<rparr>) \<and>
   zsl_vec_sub True \<lparr>sz = 2, data = [4, 7]\<rparr> \<lparr>sz = 2, data = [3, 5]\<rparr> \<lparr>sz = 2, data = [7, 7]\<rparr> =
     Some (0, \<lparr>sz = 2, data = [1, 2]\<rparr>)"
proof -
  have w: "wf_vec \<lparr>sz = 2, data = [1, 2]\<rparr>" "wf_vec \<lparr>sz = 2, data = [3, 5]\<rparr>"
    "wf_vec \<lparr>sz = 2, data = [0, 0]\<rparr>" "wf_vec \<lparr>sz = 2, data = [7, 7]\<rparr>"
    by (simp_all add: wf_vec_def)
  have c: "zsl_vec_add True \<lparr>sz = 2, data = [1, 2]\<rparr> \<lparr>sz = 2, data = [3, 5]\<rparr> \<lparr>sz = 2, data = [0, 0]\<rparr> =
   zsl_vec_add True \<lparr>sz = 2, data = [3, 5]\<rparr> \<lparr>sz = 2, data = [1, 2]\<rparr> \<lparr>sz = 2, data = [0, 0]\<rparr>"
    using zsl_vec_add_sub_spec [OF w, of True] by simp
  have a: "zsl_vec_add True \<lparr>sz = 2, data = [1, 2]\<rparr> \<lparr>sz = 2, data = [3, 5]\<rparr> \<lparr>sz = 2, data = [0, 0]\<rparr> =
     Some (0, \<lparr>sz = 2, data = [4, 7]\<rparr>)"
    by (simp add: zsl_vec_add_def zsl_vec_add_loop.simps)
  have s: "zsl_vec_sub True \<lparr>sz = 2, data = [4, 7]\<rparr> \<lparr>sz = 2, data = [3, 5]\<rparr> \<lparr>sz = 2, data = [7, 7]\<rparr> =
     Some (0, \<lparr>sz = 2, data = [1, 2]\<rparr>)"
    by (simp add: zsl_vec_sub_def zsl_vec_sub_loop.simps)
  from c a s show ?thesis
    by (intro conjI)
qed

subsection \<open>Cross product\<close>

lemma list3_update_neg:
  fixes a b c :: real
  assumes "3 \<le> length d" and "a' = - a" and "b' = - b" and "c' = - c"
  shows "map (\<lambda>j. if 0 \<le> j \<and> j < 3 then - (d[0 := a', 1 := b', 2 := c']) ! j
                   else (d[0 := a', 1 := b', 2 := c']) ! j) [0..<length d] =
         d[0 := a, 1 := b, 2 := c]"
proof (rule nth_equalityI)
  show "length (map (\<lambda>j. if 0 \<le> j \<and> j < 3 then - (d[0 := a', 1 := b', 2 := c']) ! j
                   else (d[0 := a', 1 := b', 2 := c']) ! j) [0..<length d]) =
        length (d[0 := a, 1 := b, 2 := c])"
    by simp
next
  fix i
  assume "i < length (map (\<lambda>j. if 0 \<le> j \<and> j < 3 then - (d[0 := a', 1 := b', 2 := c']) ! j
                   else (d[0 := a', 1 := b', 2 := c']) ! j) [0..<length d])"
  then have il: "i < length d" by simp
  consider "i = 0" | "i = 1" | "i = 2" | "3 \<le> i" by linarith
  then show "map (\<lambda>j. if 0 \<le> j \<and> j < 3 then - (d[0 := a', 1 := b', 2 := c']) ! j
                   else (d[0 := a', 1 := b', 2 := c']) ! j) [0..<length d] ! i =
        d[0 := a, 1 := b, 2 := c] ! i"
    using il assms by cases (simp_all add: nth_list_update)
qed

text \<open>
  C5.  With bounds checks, for \<open>v\<close>, \<open>w\<close> and an output \<open>c\<close> all of declared length 3,
  \<^verbatim>\<open>zsl_vec_cross\<close> succeeds both ways round and \<^verbatim>\<open>zsl_vec_neg\<close> applied to the result of
  \<^verbatim>\<open>cross(w, v)\<close> gives the result of \<^verbatim>\<open>cross(v, w)\<close>; when one of the three declared
  lengths is not 3 the call returns \<^verbatim>\<open>-EINVAL\<close> and the output is unchanged.
\<close>

theorem zsl_vec_cross_spec:
  "(sz v = 3 \<and> sz w = 3 \<and> sz c = 3 \<and> wf_vec v \<and> wf_vec w \<and> wf_vec c \<longrightarrow>
      (\<exists>c1 c2. zsl_vec_cross True v w c = Some (0, c1) \<and>
               zsl_vec_cross True w v c = Some (0, c2) \<and>
               zsl_vec_neg c2 = Some (0, c1) \<and>
               (\<forall>i < 3. data c1 ! i = - data c2 ! i))) \<and>
   (sz v \<noteq> 3 \<or> sz w \<noteq> 3 \<or> sz c \<noteq> 3 \<longrightarrow>
      zsl_vec_cross True v w c = Some (- EINVAL, c))"
proof (intro conjI impI)
  assume h: "sz v = 3 \<and> sz w = 3 \<and> sz c = 3 \<and> wf_vec v \<and> wf_vec w \<and> wf_vec c"
  let ?a = "data v ! 1 * data w ! 2 - data v ! 2 * data w ! 1"
  let ?b = "data v ! 2 * data w ! 0 - data v ! 0 * data w ! 2"
  let ?c = "data v ! 0 * data w ! 1 - data v ! 1 * data w ! 0"
  let ?a' = "data w ! 1 * data v ! 2 - data w ! 2 * data v ! 1"
  let ?b' = "data w ! 2 * data v ! 0 - data w ! 0 * data v ! 2"
  let ?c' = "data w ! 0 * data v ! 1 - data w ! 1 * data v ! 0"
  let ?c1 = "c\<lparr>data := (data c)[0 := ?a, 1 := ?b, 2 := ?c]\<rparr>"
  let ?c2 = "c\<lparr>data := (data c)[0 := ?a', 1 := ?b', 2 := ?c']\<rparr>"
  from h have len: "3 \<le> length (data v)" "3 \<le> length (data w)" "3 \<le> length (data c)"
    and szc: "unat (sz c) = 3"
    by (auto simp: wf_vec_def)
  have e1: "zsl_vec_cross True v w c = Some (0, ?c1)"
    using h len by (simp add: zsl_vec_cross_def)
  have e2: "zsl_vec_cross True w v c = Some (0, ?c2)"
    using h len by (simp add: zsl_vec_cross_def)
  let ?l2 = "(data c)[0 := ?a', 1 := ?b', 2 := ?c']"
  have "zsl_vec_neg_loop 0 3 ?l2 =
        Some (map (\<lambda>j. if 0 \<le> j \<and> j < 3 then - ?l2 ! j else ?l2 ! j) [0..<length ?l2])"
    using len by (intro zsl_vec_neg_loop_eq) simp
  also have "map (\<lambda>j. if 0 \<le> j \<and> j < 3 then - ?l2 ! j else ?l2 ! j) [0..<length ?l2] =
        (data c)[0 := ?a, 1 := ?b, 2 := ?c]"
    unfolding length_list_update
    by (rule list3_update_neg [OF len(3)]) (simp_all add: mult.commute)
  finally have e3: "zsl_vec_neg ?c2 = Some (0, ?c1)"
    using szc by (simp add: zsl_vec_neg_def)
  have e4: "\<forall>i < 3. data ?c1 ! i = - data ?c2 ! i"
  proof (intro allI impI)
    fix i :: nat
    assume "i < 3"
    then consider "i = 0" | "i = 1" | "i = 2" by linarith
    moreover from len have "0 < length (data c)" "1 < length (data c)" "2 < length (data c)"
      by linarith+
    ultimately show "data ?c1 ! i = - data ?c2 ! i"
      by cases (simp_all add: nth_list_update)
  qed
  show "\<exists>c1 c2. zsl_vec_cross True v w c = Some (0, c1) \<and>
               zsl_vec_cross True w v c = Some (0, c2) \<and>
               zsl_vec_neg c2 = Some (0, c1) \<and>
               (\<forall>i < 3. data c1 ! i = - data c2 ! i)"
    using e1 e2 e3 e4 by blast
next
  assume "sz v \<noteq> 3 \<or> sz w \<noteq> 3 \<or> sz c \<noteq> 3"
  then show "zsl_vec_cross True v w c = Some (- EINVAL, c)"
    by (simp add: zsl_vec_cross_def)
qed

theorem zsl_vec_cross_spec_witness:
  "(\<exists>c1 c2.
      zsl_vec_cross True \<lparr>sz = 3, data = [1, 0, 0]\<rparr> \<lparr>sz = 3, data = [0, 1, 0]\<rparr>
        \<lparr>sz = 3, data = [9, 9, 9]\<rparr> = Some (0, c1) \<and>
      zsl_vec_cross True \<lparr>sz = 3, data = [0, 1, 0]\<rparr> \<lparr>sz = 3, data = [1, 0, 0]\<rparr>
        \<lparr>sz = 3, data = [9, 9, 9]\<rparr> = Some (0, c2) \<and>
      zsl_vec_neg c2 = Some (0, c1) \<and> c1 = \<lparr>sz = 3, data = [0, 0, 1]\<rparr>) \<and>
   zsl_vec_cross True \<lparr>sz = 2, data = [1, 0, 0]\<rparr> \<lparr>sz = 3, data = [0, 1, 0]\<rparr>
     \<lparr>sz = 3, data = [9, 9, 9]\<rparr> = Some (- EINVAL, \<lparr>sz = 3, data = [9, 9, 9]\<rparr>)"
proof -
  have ev: "zsl_vec_cross True \<lparr>sz = 3, data = [1, 0, 0]\<rparr> \<lparr>sz = 3, data = [0, 1, 0]\<rparr>
        \<lparr>sz = 3, data = [9, 9, 9]\<rparr> = Some (0, \<lparr>sz = 3, data = [0, 0, 1]\<rparr>)"
    by (simp add: zsl_vec_cross_def)
  show ?thesis
    using zsl_vec_cross_spec [of "\<lparr>sz = 3, data = [1, 0, 0]\<rparr>" "\<lparr>sz = 3, data = [0, 1, 0]\<rparr>"
      "\<lparr>sz = 3, data = [9, 9, 9]\<rparr>"]
    zsl_vec_cross_spec [of "\<lparr>sz = 2, data = [1, 0, 0]\<rparr>" "\<lparr>sz = 3, data = [0, 1, 0]\<rparr>"
      "\<lparr>sz = 3, data = [9, 9, 9]\<rparr>"] ev
    by (auto simp: wf_vec_def)
qed

subsection \<open>Distance\<close>


lemma unat_mult_sizeof_eq:
  "unat s * 8 < 2 ^ 64 \<Longrightarrow> unat (s * sizeof_zsl_real_t) div unat sizeof_zsl_real_t = unat s"
  by (simp add: sizeof_zsl_real_t_def unat_word_ariths)



lemma sqrt_25: "sqrt 25 = 5"
  by (rule real_sqrt_unique) simp_all

lemma sum_upt_2: "(\<Sum>j = 0..<(2::nat). f j) = f 0 + (f 1 :: real)"
  by (simp add: numeral_2_eq_2)



subsection \<open>Unit vector\<close>

lemma zsl_vec_init_eq:
  "wf_vec v \<Longrightarrow>
   zsl_vec_init v =
     Some (0, v\<lparr>data := replicate (unat (sz v)) 0 @ drop (unat (sz v)) (data v)\<rparr>)"
proof -
  assume w: "wf_vec v"
  then have "unat (sz v) * 8 < 2 ^ 64"
    by (simp add: wf_vec_def)
  then have "unat (sz v * sizeof_zsl_real_t) div unat sizeof_zsl_real_t = unat (sz v)"
    by (rule unat_mult_sizeof_eq)
  with w show ?thesis
    by (simp add: zsl_vec_init_def memset_zero_def wf_vec_def Let_def)
qed

lemma zsl_vec_scalar_mult_eq:
  "unat (sz v) \<le> length (data v) \<Longrightarrow>
   zsl_vec_scalar_mult v s =
     Some (0, v\<lparr>data := map (\<lambda>j. if 0 \<le> j \<and> j < unat (sz v) then data v ! j * s else data v ! j)
                            [0..<length (data v)]\<rparr>)"
  by (simp add: zsl_vec_scalar_mult_def zsl_vec_scalar_mult_loop_eq)

text \<open>The computed norm, in closed form.\<close>

lemma DBL_UNDERFLOW_pos: "0 < DBL_UNDERFLOW"
  by (simp add: DBL_UNDERFLOW_def)

lemma DBL_UNDERFLOW_less_OVERFLOW: "DBL_UNDERFLOW < DBL_OVERFLOW"
proof -
  have "DBL_UNDERFLOW \<le> 1"
    by (simp add: DBL_UNDERFLOW_def)
  moreover have "(1 :: real) < 2 ^ 1024 - 2 ^ 970"
    by simp
  ultimately show ?thesis
    by (simp add: DBL_OVERFLOW_def)
qed

lemma flushed_nonneg: "0 \<le> y \<Longrightarrow> 0 \<le> flushed y"
  by (simp add: flushed_def)

lemma flushed_zero_or_above: "flushed y = 0 \<or> DBL_UNDERFLOW < flushed y"
  by (simp add: flushed_def)

lemma flushed_eq_0_iff: "0 \<le> y \<Longrightarrow> flushed y = 0 \<longleftrightarrow> y \<le> DBL_UNDERFLOW"
  using DBL_UNDERFLOW_pos by (auto simp: flushed_def)

lemma fl_range_flushed:
  "fl_range y = (if DBL_OVERFLOW \<le> flushed y then Infinite else Finite (flushed y))"
  using DBL_UNDERFLOW_less_OVERFLOW DBL_UNDERFLOW_pos by (auto simp: fl_range_def flushed_def)

lemma fl_range_keep:
  "a = 0 \<or> DBL_UNDERFLOW < a \<Longrightarrow>
   fl_range a = (if DBL_OVERFLOW \<le> a then Infinite else Finite a)"
  using DBL_UNDERFLOW_less_OVERFLOW DBL_UNDERFLOW_pos by (auto simp: fl_range_def)

lemma zsl_vec_norm_loop_Infinite:
  "n \<le> length d \<Longrightarrow> zsl_vec_norm_loop i n d Infinite = Some Infinite"
proof (induction "n - i" arbitrary: i)
  case 0
  then show ?case
    by (subst zsl_vec_norm_loop.simps) simp
next
  case (Suc k)
  then have "i < n" "i < length d" "k = n - Suc i"
    by simp_all
  with Suc show ?case
    by (subst zsl_vec_norm_loop.simps) simp
qed

lemma zsl_vec_norm_loop_Finite:
  "n \<le> length d \<Longrightarrow> 0 \<le> a \<Longrightarrow> a = 0 \<or> DBL_UNDERFLOW < a \<Longrightarrow> a < DBL_OVERFLOW \<Longrightarrow>
   zsl_vec_norm_loop i n d (Finite a) =
     Some (if DBL_OVERFLOW \<le> a + (\<Sum>k = i..<n. flushed (d ! k * d ! k)) then Infinite
           else Finite (a + (\<Sum>k = i..<n. flushed (d ! k * d ! k))))"
proof (induction "n - i" arbitrary: i a)
  case 0
  then show ?case
    by (subst zsl_vec_norm_loop.simps) simp
next
  case (Suc k)
  let ?f = "flushed (d ! i * d ! i)"
  let ?S = "\<Sum>k = Suc i..<n. flushed (d ! k * d ! k)"
  from Suc have lt: "i < n" and il: "i < length d" and k: "k = n - Suc i"
    by simp_all
  have f0: "0 \<le> ?f"
    by (rule flushed_nonneg) simp
  have S0: "0 \<le> ?S"
    by (rule sum_nonneg) (simp add: flushed_nonneg)
  have split: "(\<Sum>k = i..<n. flushed (d ! k * d ! k)) = ?f + ?S"
    using lt by (simp add: sum.atLeast_Suc_lessThan)
  have step: "zsl_vec_norm_loop i n d (Finite a) =
      zsl_vec_norm_loop (Suc i) n d (fl_add (Finite a) (fl_range (d ! i * d ! i)))"
    using lt il by (subst zsl_vec_norm_loop.simps) simp
  show ?case
  proof (cases "DBL_OVERFLOW \<le> ?f")
    case True
    then have "fl_add (Finite a) (fl_range (d ! i * d ! i)) = Infinite"
      by (simp add: fl_range_flushed)
    moreover have "DBL_OVERFLOW \<le> a + (?f + ?S)"
      using True Suc.prems(2) S0 by linarith
    ultimately show ?thesis
      using Suc.prems(1) by (simp add: step split zsl_vec_norm_loop_Infinite)
  next
    case False
    have keep: "a + ?f = 0 \<or> DBL_UNDERFLOW < a + ?f"
      using Suc.prems(2,3) f0 flushed_zero_or_above [of "d ! i * d ! i"] by linarith
    have r1: "fl_range (d ! i * d ! i) = Finite ?f"
      using False by (simp add: fl_range_flushed)
    have acc: "fl_add (Finite a) (fl_range (d ! i * d ! i)) =
        (if DBL_OVERFLOW \<le> a + ?f then Infinite else Finite (a + ?f))"
      by (simp only: r1 fl_add.simps fl_range_keep [OF keep])
    show ?thesis
    proof (cases "DBL_OVERFLOW \<le> a + ?f")
      case True
      moreover have "DBL_OVERFLOW \<le> a + (?f + ?S)"
        using True S0 by linarith
      ultimately show ?thesis
        using Suc.prems(1) by (simp add: step split acc zsl_vec_norm_loop_Infinite)
    next
      case False
      then have lo: "a + ?f < DBL_OVERFLOW"
        by simp
      have pos: "0 \<le> a + ?f"
        using Suc.prems(2) f0 by simp
      have "zsl_vec_norm_loop (Suc i) n d (Finite (a + ?f)) =
          Some (if DBL_OVERFLOW \<le> a + ?f + ?S then Infinite else Finite (a + ?f + ?S))"
        using k Suc.prems(1) pos keep lo by (rule Suc.hyps(1))
      then show ?thesis
        using False by (simp add: step split acc add.assoc)
    qed
  qed
qed

lemma zsl_vec_norm_eq:
  assumes "unat (sz v) \<le> length (data v)"
  shows "zsl_vec_norm v =
     Some (if DBL_OVERFLOW \<le> (\<Sum>k = 0..<unat (sz v). flushed (data v ! k * data v ! k))
           then Infinite
           else Finite (sqrt (\<Sum>k = 0..<unat (sz v). flushed (data v ! k * data v ! k))))"
proof -
  have "(0 :: real) < DBL_OVERFLOW"
    using DBL_UNDERFLOW_pos DBL_UNDERFLOW_less_OVERFLOW by linarith
  then show ?thesis
    using zsl_vec_norm_loop_Finite [OF assms, of 0 0] by (simp add: zsl_vec_norm_def)
qed

text \<open>Three inputs at the edge of the range of \<^verbatim>\<open>zsl_real_t\<close> and of the data model.\<close>

lemma zsl_vec_to_unit_empty:
  "zsl_vec_to_unit \<lparr>sz = 0, data = []\<rparr> = None"
  by (simp add: zsl_vec_to_unit_def zsl_vec_norm_def zsl_vec_norm_loop.simps zsl_vec_init_def
      memset_zero_def)

text \<open>
  For a vector of declared length 0 the fallback branch writes element 0 of the buffer all
  the same: outside the vector, and outside the buffer when the buffer is empty.
\<close>

lemma zsl_vec_to_unit_length_0:
  assumes "wf_vec v" and "sz v = 0"
  shows "zsl_vec_to_unit v =
    (if data v = [] then None else Some (0, v\<lparr>data := (data v)[0 := 1]\<rparr>))"
proof -
  have "zsl_vec_norm v = Some (Finite 0)"
    using assms(2) by (simp add: zsl_vec_norm_def zsl_vec_norm_loop.simps)
  then show ?thesis
    using assms(2) zsl_vec_init_eq [OF assms(1)] by (simp add: zsl_vec_to_unit_def)
qed

lemma replicate_2: "replicate 2 x = [x, x]"
  by (simp add: numeral_2_eq_2)

lemma flushed_tiny: "flushed (1 / 2 ^ 600 * (1 / 2 ^ 600)) = 0"
  by (simp add: flushed_def DBL_UNDERFLOW_def)

lemma zsl_vec_norm_tiny:
  "zsl_vec_norm \<lparr>sz = 2, data = [0, 1 / 2 ^ 600]\<rparr> = Some (Finite 0)"
proof -
  have f: "flushed (0 * 0) = 0"
    by (simp add: flushed_def DBL_UNDERFLOW_def)
  have o: "\<not> DBL_OVERFLOW \<le> 0 + 0"
    by (simp add: DBL_OVERFLOW_def)
  have "zsl_vec_norm \<lparr>sz = 2, data = [0, 1 / 2 ^ 600]\<rparr> =
      Some (if DBL_OVERFLOW \<le> flushed (0 * 0) + flushed (1 / 2 ^ 600 * (1 / 2 ^ 600))
            then Infinite
            else Finite (sqrt (flushed (0 * 0) + flushed (1 / 2 ^ 600 * (1 / 2 ^ 600)))))"
    by (subst zsl_vec_norm_eq) (simp_all add: sum_upt_2)
  then show ?thesis
    unfolding f flushed_tiny using o by (simp only: if_False) simp
qed

lemma zsl_vec_to_unit_overflow:
  "zsl_vec_to_unit \<lparr>sz = 2, data = [2 ^ 600, 0]\<rparr> = Some (0, \<lparr>sz = 2, data = [0, 0]\<rparr>)"
proof -
  have f: "flushed (2 ^ 600 * 2 ^ 600) = 2 ^ 600 * 2 ^ 600" "flushed (0 * 0) = 0"
    by (simp_all add: flushed_def DBL_UNDERFLOW_def)
  have "zsl_vec_norm \<lparr>sz = 2, data = [2 ^ 600, 0]\<rparr> =
      Some (if DBL_OVERFLOW \<le> flushed (2 ^ 600 * 2 ^ 600) + flushed (0 * 0)
            then Infinite
            else Finite (sqrt (flushed (2 ^ 600 * 2 ^ 600) + flushed (0 * 0))))"
    by (subst zsl_vec_norm_eq) (simp_all add: sum_upt_2)
  then have n: "zsl_vec_norm \<lparr>sz = 2, data = [2 ^ 600, 0]\<rparr> = Some Infinite"
    unfolding f by (simp add: DBL_OVERFLOW_def)
  have u: "[0..<2] = [0, 1]"
    by (simp add: upt_rec)
  have w: "unat (sz \<lparr>sz = 2, data = [2 ^ 600, 0 :: real]\<rparr>) \<le>
      length (data \<lparr>sz = 2, data = [2 ^ 600, 0 :: real]\<rparr>)"
    by simp
  show ?thesis
    unfolding zsl_vec_to_unit_def n zsl_vec_scalar_mult_eq [OF w] by (simp add: u)
qed

text \<open>
  C3, as stated, fails at three inputs.  The vector \<open>(0, 2^-600)\<close> has the norm \<open>2^-600\<close>,
  which is not zero, but the square \<open>2^-1200\<close> underflows, the computed norm is zero and the
  code takes the fallback branch: the result is \<open>(1, 0)\<close>, not the elements divided by the
  norm, \<open>(0, 1)\<close>.  The vector \<open>(2^600, 0)\<close> has the norm \<open>2^600\<close>, but the square \<open>2^1200\<close>
  overflows, the computed norm is infinite and every element is multiplied by zero: the
  result \<open>(0, 0)\<close> has norm 0, not 1.  And the empty vector on an empty buffer has norm zero,
  but the fallback writes element 0 outside the buffer: no fallback vector is produced.
\<close>

theorem zsl_vec_to_unit_counterexample:
  "1 \<le> unat (sz \<lparr>sz = 2, data = [0, 1 / 2 ^ 600 :: real]\<rparr>) \<and>
   sqrt (0 * 0 + 1 / 2 ^ 600 * (1 / 2 ^ 600)) = (1 / 2 ^ 600 :: real) \<and>
   (1 / 2 ^ 600 :: real) \<noteq> 0 \<and>
   zsl_vec_to_unit \<lparr>sz = 2, data = [0, 1 / 2 ^ 600]\<rparr> = Some (0, \<lparr>sz = 2, data = [1, 0]\<rparr>) \<and>
   [1, 0] \<noteq> [0 / (1 / 2 ^ 600), 1 / 2 ^ 600 / (1 / 2 ^ 600 :: real)] \<and>
   sqrt (2 ^ 600 * 2 ^ 600 + 0 * 0) = (2 ^ 600 :: real) \<and>
   (2 ^ 600 :: real) \<noteq> 0 \<and>
   zsl_vec_to_unit \<lparr>sz = 2, data = [2 ^ 600, 0]\<rparr> = Some (0, \<lparr>sz = 2, data = [0, 0]\<rparr>) \<and>
   sqrt (0 * 0 + 0 * 0) \<noteq> (1 :: real) \<and>
   wf_vec \<lparr>sz = 0, data = []\<rparr> \<and>
   zsl_vec_norm \<lparr>sz = 0, data = []\<rparr> = Some (Finite 0) \<and>
   zsl_vec_to_unit \<lparr>sz = 0, data = []\<rparr> = None"
proof -
  have w: "wf_vec \<lparr>sz = 2, data = [0, 1 / 2 ^ 600]\<rparr>"
    by (simp add: wf_vec_def)
  have s: "sqrt (0 * 0 + 1 / 2 ^ 600 * (1 / 2 ^ 600)) = (1 / 2 ^ 600 :: real)"
    by (rule real_sqrt_unique) (simp_all add: power2_eq_square)
  have t: "zsl_vec_to_unit \<lparr>sz = 2, data = [0, 1 / 2 ^ 600]\<rparr> =
      Some (0, \<lparr>sz = 2, data = [1, 0]\<rparr>)"
    unfolding zsl_vec_to_unit_def zsl_vec_norm_tiny zsl_vec_init_eq [OF w]
    by (simp add: replicate_2)
  have n: "1 \<le> unat (sz \<lparr>sz = 2, data = [0, 1 / 2 ^ 600 :: real]\<rparr>)"
    "(1 / 2 ^ 600 :: real) \<noteq> 0"
    "[1, 0] \<noteq> [0 / (1 / 2 ^ 600), 1 / 2 ^ 600 / (1 / 2 ^ 600 :: real)]"
    by simp_all
  have e: "wf_vec \<lparr>sz = 0, data = []\<rparr>"
    "zsl_vec_norm \<lparr>sz = 0, data = []\<rparr> = Some (Finite 0)"
    by (simp_all add: wf_vec_def zsl_vec_norm_def zsl_vec_norm_loop.simps)
  have o: "sqrt (2 ^ 600 * 2 ^ 600 + 0 * 0) = (2 ^ 600 :: real)"
    by (rule real_sqrt_unique) (simp_all add: power2_eq_square)
  have p: "(2 ^ 600 :: real) \<noteq> 0" "sqrt (0 * 0 + 0 * 0) \<noteq> (1 :: real)"
    by simp_all
  from n(1) s n(2) t n(3) o p(1) zsl_vec_to_unit_overflow p(2) e zsl_vec_to_unit_empty
  show ?thesis
    by (intro conjI)
qed

text \<open>
  C3, amended.  For every vector of length at least 1 the code computes a norm \<open>mag\<close>: the
  square root of the sum of the squares in \<^verbatim>\<open>zsl_real_t\<close> arithmetic.  It is exactly zero if
  and only if every square underflows to zero (so for the zero vector in particular).  When
  \<open>mag\<close> is finite and not zero, \<^verbatim>\<open>zsl_vec_to_unit\<close> divides each element in place by \<open>mag\<close>
  and returns 0, leaving the buffer behind the vector as it is; and when moreover no square
  of a nonzero element underflows, \<open>mag\<close> is the Euclidean norm and the norm of the result is
  1.  When \<open>mag\<close> is exactly zero, it clears the vector, sets element 0 to 1.0 and returns 0.
\<close>

theorem zsl_vec_to_unit_spec:
  assumes "wf_vec v" and "1 \<le> unat (sz v)"
  shows "\<exists>mag. zsl_vec_norm v = Some mag \<and>
    ((mag = Finite 0) = (\<forall>i < unat (sz v). data v ! i * data v ! i \<le> DBL_UNDERFLOW)) \<and>
    (\<forall>m. mag = Finite m \<and> m \<noteq> 0 \<longrightarrow>
       (\<exists>v'. zsl_vec_to_unit v = Some (0, v') \<and> sz v' = sz v \<and>
             (\<forall>i < unat (sz v). data v' ! i = data v ! i / m) \<and>
             drop (unat (sz v)) (data v') = drop (unat (sz v)) (data v) \<and>
             ((\<forall>i < unat (sz v). data v ! i = 0 \<or> DBL_UNDERFLOW < data v ! i * data v ! i) \<longrightarrow>
                m = sqrt (\<Sum>i = 0..<unat (sz v). data v ! i * data v ! i) \<and>
                sqrt (\<Sum>i = 0..<unat (sz v). data v' ! i * data v' ! i) = 1))) \<and>
    (mag = Finite 0 \<longrightarrow>
       zsl_vec_to_unit v =
         Some (0, v\<lparr>data := 1 # replicate (unat (sz v) - 1) 0 @ drop (unat (sz v)) (data v)\<rparr>))"
proof -
  let ?n = "unat (sz v)"
  let ?T = "\<Sum>k = 0..<?n. flushed (data v ! k * data v ! k)"
  let ?mag = "if DBL_OVERFLOW \<le> ?T then Infinite else Finite (sqrt ?T)"
  from assms have bn: "?n \<le> length (data v)"
    by (simp add: wf_vec_def)
  have norm: "zsl_vec_norm v = Some ?mag"
    using bn by (rule zsl_vec_norm_eq)
  have T0: "0 \<le> ?T"
    by (rule sum_nonneg) (simp add: flushed_nonneg)
  have Opos: "0 < DBL_OVERFLOW"
    using DBL_UNDERFLOW_pos DBL_UNDERFLOW_less_OVERFLOW by linarith
  have Tz: "?T = 0 \<longleftrightarrow> (\<forall>i < ?n. data v ! i * data v ! i \<le> DBL_UNDERFLOW)"
  proof -
    have "?T = 0 \<longleftrightarrow> (\<forall>k\<in>{0..<?n}. flushed (data v ! k * data v ! k) = 0)"
      by (rule sum_nonneg_eq_0_iff) (simp_all add: flushed_nonneg)
    also have "\<dots> \<longleftrightarrow> (\<forall>i < ?n. data v ! i * data v ! i \<le> DBL_UNDERFLOW)"
      by (auto simp: flushed_eq_0_iff)
    finally show ?thesis .
  qed
  have iff: "(?mag = Finite 0) = (\<forall>i < ?n. data v ! i * data v ! i \<le> DBL_UNDERFLOW)"
  proof -
    have "(?mag = Finite 0) \<longleftrightarrow> ?T = 0"
      using T0 Opos by auto
    then show ?thesis
      using Tz by simp
  qed
  have nz: "\<exists>v'. zsl_vec_to_unit v = Some (0, v') \<and> sz v' = sz v \<and>
             (\<forall>i < ?n. data v' ! i = data v ! i / m) \<and>
             drop ?n (data v') = drop ?n (data v) \<and>
             ((\<forall>i < ?n. data v ! i = 0 \<or> DBL_UNDERFLOW < data v ! i * data v ! i) \<longrightarrow>
                m = sqrt (\<Sum>i = 0..<?n. data v ! i * data v ! i) \<and>
                sqrt (\<Sum>i = 0..<?n. data v' ! i * data v' ! i) = 1)"
    if mm: "?mag = Finite m" and m0: "m \<noteq> 0" for m
  proof -
    from mm have m: "m = sqrt ?T"
      by (simp split: if_splits)
    let ?d' = "map (\<lambda>j. if 0 \<le> j \<and> j < ?n then data v ! j * (1 / m) else data v ! j)
                 [0..<length (data v)]"
    let ?v' = "v\<lparr>data := ?d'\<rparr>"
    have "?mag \<noteq> Finite 0"
      using mm m0 by simp
    then have tu: "zsl_vec_to_unit v = Some (0, ?v')"
      using norm mm zsl_vec_scalar_mult_eq [OF bn, of "1 / m"]
      by (simp add: zsl_vec_to_unit_def)
    have el: "\<forall>i < ?n. ?d' ! i = data v ! i / m"
      using bn by simp
    have tail: "drop ?n ?d' = drop ?n (data v)"
      using bn by (intro nth_equalityI) simp_all
    have exact: "m = sqrt (\<Sum>i = 0..<?n. data v ! i * data v ! i) \<and>
        sqrt (\<Sum>i = 0..<?n. ?d' ! i * ?d' ! i) = 1"
      if nu: "\<forall>i < ?n. data v ! i = 0 \<or> DBL_UNDERFLOW < data v ! i * data v ! i"
    proof -
      have "?T = (\<Sum>i = 0..<?n. data v ! i * data v ! i)"
        using nu by (intro sum.cong refl) (auto simp: flushed_def)
      then have ms: "m = sqrt (\<Sum>i = 0..<?n. data v ! i * data v ! i)"
        using m by simp
      have "(\<Sum>i = 0..<?n. ?d' ! i * ?d' ! i) = (\<Sum>i = 0..<?n. data v ! i * data v ! i / m\<^sup>2)"
        using bn by (intro sum.cong) (simp_all add: power2_eq_square)
      also have "\<dots> = (\<Sum>i = 0..<?n. data v ! i * data v ! i) / m\<^sup>2"
        by (simp add: sum_divide_distrib)
      also have "\<dots> = 1"
        using m0 ms sum_nonneg [of "{0..<?n}" "\<lambda>i. data v ! i * data v ! i"] by simp
      finally show ?thesis
        using ms by simp
    qed
    show ?thesis
    proof (rule exI [of _ ?v'], intro conjI impI)
      show "zsl_vec_to_unit v = Some (0, ?v')" by (rule tu)
      show "sz ?v' = sz v" by simp
      show "\<forall>i < ?n. data ?v' ! i = data v ! i / m"
        using el by simp
      show "drop ?n (data ?v') = drop ?n (data v)"
        using tail by simp
      assume nu: "\<forall>i < ?n. data v ! i = 0 \<or> DBL_UNDERFLOW < data v ! i * data v ! i"
      show "m = sqrt (\<Sum>i = 0..<?n. data v ! i * data v ! i)"
        using exact [OF nu] by (rule conjunct1)
      have dv: "data ?v' = ?d'"
        by simp
      show "sqrt (\<Sum>i = 0..<?n. data ?v' ! i * data ?v' ! i) = 1"
        unfolding dv using exact [OF nu] by (rule conjunct2)
    qed
  qed
  have z: "zsl_vec_to_unit v =
         Some (0, v\<lparr>data := 1 # replicate (?n - 1) 0 @ drop ?n (data v)\<rparr>)"
    if mz: "?mag = Finite 0"
  proof -
    from assms(2) obtain k where k: "?n = Suc k"
      by (cases ?n) simp_all
    have "(replicate ?n 0 @ drop ?n (data v))[0 := 1] =
          1 # replicate (?n - 1) (0::real) @ drop ?n (data v)"
      by (simp add: k)
    then show ?thesis
      using mz norm zsl_vec_init_eq [OF assms(1)] assms(2)
      by (simp add: zsl_vec_to_unit_def)
  qed
  show ?thesis
  proof (rule exI [of _ ?mag], intro conjI allI impI)
    show "zsl_vec_norm v = Some ?mag" by (rule norm)
    show "(?mag = Finite 0) = (\<forall>i < ?n. data v ! i * data v ! i \<le> DBL_UNDERFLOW)"
      by (rule iff)
    show "\<exists>v'. zsl_vec_to_unit v = Some (0, v') \<and> sz v' = sz v \<and>
             (\<forall>i < ?n. data v' ! i = data v ! i / m) \<and>
             drop ?n (data v') = drop ?n (data v) \<and>
             ((\<forall>i < ?n. data v ! i = 0 \<or> DBL_UNDERFLOW < data v ! i * data v ! i) \<longrightarrow>
                m = sqrt (\<Sum>i = 0..<?n. data v ! i * data v ! i) \<and>
                sqrt (\<Sum>i = 0..<?n. data v' ! i * data v' ! i) = 1)"
      if "?mag = Finite m \<and> m \<noteq> 0" for m
      using that nz by blast
    show "zsl_vec_to_unit v =
         Some (0, v\<lparr>data := 1 # replicate (?n - 1) 0 @ drop ?n (data v)\<rparr>)"
      if "?mag = Finite 0"
      using that by (rule z)
  qed
qed

theorem zsl_vec_to_unit_spec_witness:
  "wf_vec \<lparr>sz = 2, data = [3, 4]\<rparr> \<and> 1 \<le> unat (sz \<lparr>sz = 2, data = [3, 4 :: real]\<rparr>) \<and>
   zsl_vec_norm \<lparr>sz = 2, data = [3, 4]\<rparr> = Some (Finite 5) \<and>
   (\<exists>v'. zsl_vec_to_unit \<lparr>sz = 2, data = [3, 4]\<rparr> = Some (0, v') \<and> sz v' = 2 \<and>
      data v' ! 0 = 3 / 5 \<and> data v' ! 1 = 4 / 5 \<and>
      sqrt (data v' ! 0 * data v' ! 0 + data v' ! 1 * data v' ! 1) = 1) \<and>
   wf_vec \<lparr>sz = 2, data = [1 / 2 ^ 600, 1 / 2 ^ 600, 7]\<rparr> \<and>
   1 \<le> unat (sz \<lparr>sz = 2, data = [1 / 2 ^ 600, 1 / 2 ^ 600, 7 :: real]\<rparr>) \<and>
   zsl_vec_norm \<lparr>sz = 2, data = [1 / 2 ^ 600, 1 / 2 ^ 600, 7]\<rparr> = Some (Finite 0) \<and>
   zsl_vec_to_unit \<lparr>sz = 2, data = [1 / 2 ^ 600, 1 / 2 ^ 600, 7]\<rparr> =
     Some (0, \<lparr>sz = 2, data = [1, 0, 7]\<rparr>)"
proof -
  let ?v = "\<lparr>sz = 2, data = [3, 4 :: real]\<rparr>"
  let ?u = "\<lparr>sz = 2, data = [1 / 2 ^ 600, 1 / 2 ^ 600, 7 :: real]\<rparr>"
  have wv: "wf_vec ?v" and wu: "wf_vec ?u"
    by (simp_all add: wf_vec_def)
  have nv: "1 \<le> unat (sz ?v)" and nu: "1 \<le> unat (sz ?u)"
    by simp_all
  have n2: "unat (sz ?v) = 2" "unat (sz ?u) = 2"
    by simp_all
  have U1: "DBL_UNDERFLOW \<le> 1"
    by (simp add: DBL_UNDERFLOW_def)
  have two: "i = 0 \<or> i = 1" if "i < 2" for i :: nat
    using that by auto
  from zsl_vec_to_unit_spec [OF wv nv] obtain mag where
    a1: "zsl_vec_norm ?v = Some mag" and
    a2: "(mag = Finite 0) = (\<forall>i < unat (sz ?v). data ?v ! i * data ?v ! i \<le> DBL_UNDERFLOW)" and
    a3: "\<And>m. mag = Finite m \<and> m \<noteq> 0 \<Longrightarrow>
       \<exists>v'. zsl_vec_to_unit ?v = Some (0, v') \<and> sz v' = sz ?v \<and>
             (\<forall>i < unat (sz ?v). data v' ! i = data ?v ! i / m) \<and>
             drop (unat (sz ?v)) (data v') = drop (unat (sz ?v)) (data ?v) \<and>
             ((\<forall>i < unat (sz ?v). data ?v ! i = 0 \<or> DBL_UNDERFLOW < data ?v ! i * data ?v ! i) \<longrightarrow>
                m = sqrt (\<Sum>i = 0..<unat (sz ?v). data ?v ! i * data ?v ! i) \<and>
                sqrt (\<Sum>i = 0..<unat (sz ?v). data v' ! i * data v' ! i) = 1)"
    by blast
  have big: "\<forall>i < unat (sz ?v). data ?v ! i = 0 \<or> DBL_UNDERFLOW < data ?v ! i * data ?v ! i"
  proof (intro allI impI)
    fix i
    assume "i < unat (sz ?v)"
    then have "i = 0 \<or> i = 1"
      unfolding n2 by (rule two)
    then show "data ?v ! i = 0 \<or> DBL_UNDERFLOW < data ?v ! i * data ?v ! i"
      using U1 by auto
  qed
  have "\<not> (\<forall>i < unat (sz ?v). data ?v ! i * data ?v ! i \<le> DBL_UNDERFLOW)"
  proof
    assume "\<forall>i < unat (sz ?v). data ?v ! i * data ?v ! i \<le> DBL_UNDERFLOW"
    moreover have "0 < unat (sz ?v)"
      by simp
    ultimately have "data ?v ! 0 * data ?v ! 0 \<le> DBL_UNDERFLOW"
      by blast
    then show False
      using U1 by simp
  qed
  with a2 have mz: "mag \<noteq> Finite 0"
    by simp
  have fv: "flushed (3 * 3) = 3 * 3" "flushed (4 * 4) = 4 * 4"
    using U1 by (simp_all add: flushed_def)
  have "zsl_vec_norm ?v =
      Some (if DBL_OVERFLOW \<le> flushed (3 * 3) + flushed (4 * 4) then Infinite
            else Finite (sqrt (flushed (3 * 3) + flushed (4 * 4))))"
    by (subst zsl_vec_norm_eq) (simp_all add: sum_upt_2)
  then have normv: "zsl_vec_norm ?v = Some (Finite 5)"
    unfolding fv by (simp add: DBL_OVERFLOW_def sqrt_25)
  with a1 have m5: "mag = Finite 5 \<and> (5 :: real) \<noteq> 0"
    by simp
  from a3 [OF m5] big obtain v' where
    b1: "zsl_vec_to_unit ?v = Some (0, v')" and b2: "sz v' = sz ?v" and
    b3: "\<forall>i < unat (sz ?v). data v' ! i = data ?v ! i / 5" and
    b4: "sqrt (\<Sum>i = 0..<unat (sz ?v). data v' ! i * data v' ! i) = 1"
    by blast
  have "0 < unat (sz ?v)" "1 < unat (sz ?v)"
    by simp_all
  with b3 have "data v' ! 0 = data ?v ! 0 / 5" "data v' ! 1 = data ?v ! 1 / 5"
    by blast+
  then have c3: "data v' ! 0 = 3 / 5" "data v' ! 1 = 4 / 5"
    by simp_all
  from b4 have c4: "sqrt (data v' ! 0 * data v' ! 0 + data v' ! 1 * data v' ! 1) = 1"
    unfolding n2 sum_upt_2 .
  from b2 have c2: "sz v' = 2"
    by simp
  have ex: "\<exists>v'. zsl_vec_to_unit ?v = Some (0, v') \<and> sz v' = 2 \<and>
      data v' ! 0 = 3 / 5 \<and> data v' ! 1 = 4 / 5 \<and>
      sqrt (data v' ! 0 * data v' ! 0 + data v' ! 1 * data v' ! 1) = 1"
    using b1 c2 c3 c4 by blast
  from zsl_vec_to_unit_spec [OF wu nu] obtain mag' where
    d1: "zsl_vec_norm ?u = Some mag'" and
    d2: "(mag' = Finite 0) = (\<forall>i < unat (sz ?u). data ?u ! i * data ?u ! i \<le> DBL_UNDERFLOW)" and
    d3: "mag' = Finite 0 \<Longrightarrow> zsl_vec_to_unit ?u =
         Some (0, ?u\<lparr>data := 1 # replicate (unat (sz ?u) - 1) 0 @ drop (unat (sz ?u)) (data ?u)\<rparr>)"
    by blast
  have "\<forall>i < unat (sz ?u). data ?u ! i * data ?u ! i \<le> DBL_UNDERFLOW"
  proof (intro allI impI)
    fix i
    assume "i < unat (sz ?u)"
    then have "i = 0 \<or> i = 1"
      unfolding n2 by (rule two)
    then show "data ?u ! i * data ?u ! i \<le> DBL_UNDERFLOW"
      by (auto simp: DBL_UNDERFLOW_def)
  qed
  with d2 have mz': "mag' = Finite 0"
    by simp
  have r: "replicate (2 - 1) (0 :: real) = [0]"
    by simp
  from d3 [OF mz'] have tu: "zsl_vec_to_unit ?u = Some (0, \<lparr>sz = 2, data = [1, 0, 7]\<rparr>)"
    unfolding n2 r by simp
  from d1 mz' have normu: "zsl_vec_norm ?u = Some (Finite 0)"
    by simp
  from wv nv normv ex wu nu normu tu show ?thesis
    by (intro conjI)
qed

subsection \<open>Reversal\<close>

lemma zsl_vec_rev_loop_eq:
  "(s < e \<longrightarrow> unat e < length d) \<Longrightarrow>
   zsl_vec_rev_loop s e d =
     Some (map (\<lambda>j. if unat s \<le> j \<and> j \<le> unat e then d ! (unat s + unat e - j) else d ! j)
             [0..<length d])"
proof (induction s e d rule: zsl_vec_rev_loop.induct)
  case (1 s e d)
  show ?case
  proof (cases "s < e")
    case False
    then have "unat e \<le> unat s"
      by (simp add: word_less_nat_alt)
    then have "\<And>j. unat s \<le> j \<Longrightarrow> j \<le> unat e \<Longrightarrow> unat s + unat e - j = j"
      by simp
    then have "map (\<lambda>j. if unat s \<le> j \<and> j \<le> unat e then d ! (unat s + unat e - j) else d ! j)
             [0..<length d] = d"
      by (intro nth_equalityI) auto
    with False show ?thesis
      by (subst zsl_vec_rev_loop.simps) simp
  next
    case True
    define d' where "d' = d[unat s := d ! unat e, unat e := d ! unat s]"
    define f where "f = (\<lambda>j. if unat s + 1 \<le> j \<and> j \<le> unat e - 1
                              then d' ! (unat s + 1 + (unat e - 1) - j) else d' ! j)"
    define g where "g = (\<lambda>j. if unat s \<le> j \<and> j \<le> unat e
                              then d ! (unat s + unat e - j) else d ! j)"
    from True have lt: "unat s < unat e"
      by (simp add: word_less_nat_alt)
    from True "1.prems" have el: "unat e < length d" by simp
    with lt have sl: "unat s < length d" by simp
    have us: "unat (s + 1) = unat s + 1"
      using True by unat_arith
    have ue: "unat (e - 1) = unat e - 1"
      using True by unat_arith
    have "unat e - 1 < length d"
      using el by linarith
    then have pre: "s + 1 < e - 1 \<longrightarrow> unat (e - 1) < length d'"
      by (simp add: ue d'_def)
    have fg: "f i = g i" if il: "i < length d" for i
    proof -
      consider "i < unat s" | "i = unat s" | "unat s < i" "i < unat e" | "i = unat e" | "unat e < i"
        by linarith
      then show ?thesis
      proof cases
        case 1
        then have "\<not> (unat s + 1 \<le> i \<and> i \<le> unat e - 1)" "\<not> (unat s \<le> i \<and> i \<le> unat e)"
          "unat s \<noteq> i" "unat e \<noteq> i"
          using lt by linarith+
        then show ?thesis
          unfolding f_def g_def d'_def
          by (simp only: if_False nth_list_update_neq not_False_eq_True)
      next
        case 2
        then have "\<not> (unat s + 1 \<le> i \<and> i \<le> unat e - 1)" "unat s \<le> i \<and> i \<le> unat e"
          "unat e \<noteq> i" "unat s + unat e - i = unat e"
          using lt by linarith+
        then show ?thesis
          unfolding f_def g_def d'_def using 2 sl by (auto simp: nth_list_update)
      next
        case 3
        have c1: "unat s + 1 \<le> i \<and> i \<le> unat e - 1"
          using 3 by linarith
        have c2: "unat s \<le> i \<and> i \<le> unat e"
          using 3 by linarith
        have idx: "unat s + 1 + (unat e - 1) - i = unat s + unat e - i"
          using 3 by linarith
        have ne: "unat s \<noteq> unat s + unat e - i" "unat e \<noteq> unat s + unat e - i"
          using 3 by linarith+
        have "d' ! (unat s + unat e - i) = d ! (unat s + unat e - i)"
          unfolding d'_def using ne by (metis nth_list_update_neq)
        then show ?thesis
          unfolding f_def g_def using c1 c2 by (simp only: idx if_True simp_thms)
      next
        case 4
        then have "\<not> (unat s + 1 \<le> i \<and> i \<le> unat e - 1)" "unat s \<le> i \<and> i \<le> unat e"
          "unat s + unat e - i = unat s"
          using lt by linarith+
        then show ?thesis
          unfolding f_def g_def d'_def using 4 el by (auto simp: nth_list_update)
      next
        case 5
        then have "\<not> (unat s + 1 \<le> i \<and> i \<le> unat e - 1)" "\<not> (unat s \<le> i \<and> i \<le> unat e)"
          "unat s \<noteq> i" "unat e \<noteq> i"
          using lt by linarith+
        then show ?thesis
          unfolding f_def g_def d'_def
          by (simp only: if_False nth_list_update_neq not_False_eq_True)
      qed
    qed
    have "zsl_vec_rev_loop s e d = zsl_vec_rev_loop (s + 1) (e - 1) d'"
      using True sl el unfolding d'_def by (subst zsl_vec_rev_loop.simps) simp
    also have "\<dots> = Some (map (\<lambda>j. if unat (s + 1) \<le> j \<and> j \<le> unat (e - 1)
                 then d' ! (unat (s + 1) + unat (e - 1) - j) else d' ! j) [0..<length d'])"
      using True sl el pre unfolding d'_def by (intro "1.IH") simp_all
    also have "\<dots> = Some (map f [0..<length d'])"
      unfolding f_def us ue ..
    also have "map f [0..<length d'] = map g [0..<length d]"
      using fg by (simp add: d'_def)
    finally show ?thesis
      unfolding g_def .
  qed
qed

lemma zsl_vec_rev_eq:
  assumes "1 \<le> unat (sz v)" and "unat (sz v) \<le> length (data v)"
  shows "zsl_vec_rev v =
     Some (0, v\<lparr>data := map (\<lambda>j. if j < unat (sz v) then data v ! (unat (sz v) - 1 - j)
                                 else data v ! j) [0..<length (data v)]\<rparr>)"
proof -
  let ?n = "unat (sz v)"
  have nz: "sz v \<noteq> 0"
    using assms(1) by auto
  then have ue: "unat (sz v - 1) = ?n - 1"
    by (simp add: unat_minus_one)
  have "zsl_vec_rev_loop 0 (sz v - 1) (data v) =
     Some (map (\<lambda>j. if unat (0 :: size_t) \<le> j \<and> j \<le> unat (sz v - 1)
                     then data v ! (unat (0 :: size_t) + unat (sz v - 1) - j) else data v ! j)
             [0..<length (data v)])"
  proof (rule zsl_vec_rev_loop_eq)
    have "?n - 1 < length (data v)"
      using assms by linarith
    then show "0 < sz v - 1 \<longrightarrow> unat (sz v - 1) < length (data v)"
      by (simp only: ue simp_thms)
  qed
  also have "(\<lambda>j. if unat (0 :: size_t) \<le> j \<and> j \<le> unat (sz v - 1)
                     then data v ! (unat (0 :: size_t) + unat (sz v - 1) - j) else data v ! j) =
      (\<lambda>j. if j < ?n then data v ! (?n - 1 - j) else data v ! j)"
    using assms(1) by (auto simp: ue fun_eq_iff)
  finally show ?thesis
    by (simp add: zsl_vec_rev_def)
qed

text \<open>
  C10.  For a vector of declared length at least 1 whose buffer holds that many slots,
  \<^verbatim>\<open>zsl_vec_rev\<close> returns 0 and element \<open>i\<close> of the result is the old element
  \<open>sz - 1 - i\<close>, the slots above the declared length keeping their value.  The same call on
  a buffer of exactly \<open>sz\<close> slots succeeds too: an access at an index outside \<open>[0, sz)\<close>
  would be outside that buffer, so every index the loop touches is below \<open>sz\<close>.  For a
  vector of declared length 0, \<^verbatim>\<open>sz - 1\<close> wraps around to the largest \<^verbatim>\<open>size_t\<close>, the loop
  is entered and its first iteration accesses that index, outside every buffer.
\<close>

theorem zsl_vec_rev_spec:
  "(1 \<le> unat (sz v) \<and> wf_vec v \<longrightarrow>
      zsl_vec_rev v =
        Some (0, v\<lparr>data := map (\<lambda>j. if j < unat (sz v) then data v ! (unat (sz v) - 1 - j)
                                    else data v ! j) [0..<length (data v)]\<rparr>) \<and>
      zsl_vec_rev (v\<lparr>data := take (unat (sz v)) (data v)\<rparr>) =
        Some (0, v\<lparr>data := rev (take (unat (sz v)) (data v))\<rparr>)) \<and>
   (sz v = 0 \<and> wf_vec v \<longrightarrow> zsl_vec_rev v = None)"
proof (intro conjI impI)
  assume h: "1 \<le> unat (sz v) \<and> wf_vec v"
  then have b: "1 \<le> unat (sz v)" "unat (sz v) \<le> length (data v)"
    by (simp_all add: wf_vec_def)
  show "zsl_vec_rev v =
        Some (0, v\<lparr>data := map (\<lambda>j. if j < unat (sz v) then data v ! (unat (sz v) - 1 - j)
                                    else data v ! j) [0..<length (data v)]\<rparr>)"
    using b by (rule zsl_vec_rev_eq)
  let ?n = "unat (sz v)"
  let ?t = "take ?n (data v)"
  have lt: "length ?t = ?n"
    using b by simp
  have "map (\<lambda>j. if j < ?n then ?t ! (?n - 1 - j) else ?t ! j) [0..<length ?t] = rev ?t"
  proof (rule nth_equalityI)
    show "length (map (\<lambda>j. if j < ?n then ?t ! (?n - 1 - j) else ?t ! j) [0..<length ?t]) =
          length (rev ?t)"
      by simp
  next
    fix i
    assume "i < length (map (\<lambda>j. if j < ?n then ?t ! (?n - 1 - j) else ?t ! j) [0..<length ?t])"
    then have i: "i < ?n"
      using lt by simp
    then have "rev ?t ! i = ?t ! (?n - Suc i)"
      using lt by (simp only: rev_nth)
    then show "map (\<lambda>j. if j < ?n then ?t ! (?n - 1 - j) else ?t ! j) [0..<length ?t] ! i =
          rev ?t ! i"
      using i lt by simp
  qed
  then show "zsl_vec_rev (v\<lparr>data := ?t\<rparr>) = Some (0, v\<lparr>data := rev ?t\<rparr>)"
    using b zsl_vec_rev_eq [of "v\<lparr>data := ?t\<rparr>"] by (simp cong: if_cong)
next
  assume h: "sz v = 0 \<and> wf_vec v"
  then have len: "length (data v) < 2 ^ 64 - 1"
    by (simp add: wf_vec_def)
  have u: "unat (- 1 :: size_t) = 2 ^ 64 - 1"
    by (simp add: unsigned_minus_1_eq_mask mask_eq_exp_minus_1)
  have lt: "(0 :: size_t) < - 1"
    by (simp add: word_less_nat_alt u)
  have "\<not> unat (- 1 :: size_t) < length (data v)"
    using len u by linarith
  then have "zsl_vec_rev_loop 0 (- 1) (data v) = None"
    using lt by (subst zsl_vec_rev_loop.simps) (simp only: if_True if_False simp_thms)
  with h show "zsl_vec_rev v = None"
    by (simp add: zsl_vec_rev_def)
qed

theorem zsl_vec_rev_spec_witness:
  "zsl_vec_rev \<lparr>sz = 3, data = [1, 2, 3, 9]\<rparr> = Some (0, \<lparr>sz = 3, data = [3, 2, 1, 9]\<rparr>) \<and>
   zsl_vec_rev \<lparr>sz = 3, data = [1, 2, 3]\<rparr> = Some (0, \<lparr>sz = 3, data = [3, 2, 1]\<rparr>) \<and>
   zsl_vec_rev \<lparr>sz = 0, data = []\<rparr> = None"
proof -
  have w: "wf_vec \<lparr>sz = 3, data = [1, 2, 3, 9]\<rparr>" "wf_vec \<lparr>sz = 0, data = []\<rparr>"
    by (simp_all add: wf_vec_def)
  have u: "[0..<4] = [0, 1, 2, 3]"
    by (simp add: upt_rec)
  show ?thesis
    using zsl_vec_rev_spec [of "\<lparr>sz = 3, data = [1, 2, 3, 9]\<rparr>"]
      zsl_vec_rev_spec [of "\<lparr>sz = 0, data = []\<rparr>"] w u
    by simp
qed


subsection \<open>Sum of vectors\<close>

lemma scast_ucast_small:
  assumes "unat (s :: size_t) < 2 ^ 31"
  shows "(scast (ucast s :: 32 word) :: size_t) = s"
proof -
  from assms have "int (unat s) < int (2 ^ 31)"
    by (simp only: of_nat_less_iff)
  then have u: "uint s < 2 ^ 31"
    by simp
  have "uint (ucast s :: 32 word) = take_bit 32 (uint s)"
    by (simp add: unsigned_ucast_eq)
  also have "\<dots> = uint s"
    using u by (simp add: take_bit_int_eq_self)
  finally have a: "uint (ucast s :: 32 word) = uint s" .
  have "sint (ucast s :: 32 word) = signed_take_bit 31 (uint (ucast s :: 32 word))"
    by (simp add: sint_uint)
  also have "\<dots> = uint s"
    unfolding a
  proof (rule signed_take_bit_int_eq_self)
    have "- (2 ^ 31) \<le> (0 :: int)" by simp
    also have "0 \<le> uint s" by simp
    finally show "- (2 ^ 31) \<le> uint s" .
    show "uint s < 2 ^ 31" by (rule u)
  qed
  finally have "sint (ucast s :: 32 word) = uint s" .
  then show ?thesis
    by (simp add: scast_eq)
qed

lemma zsl_vec_sum_inner_bounds:
  "zsl_vec_sum_inner j m dv dw \<noteq> None \<Longrightarrow> j < m \<Longrightarrow> m \<le> length dv \<and> m \<le> length dw"
proof (induction j m dv dw rule: zsl_vec_sum_inner.induct)
  case (1 j m dv dw)
  from "1.prems" have b: "j < length dv \<and> j < length dw"
    by (subst (asm) zsl_vec_sum_inner.simps) (simp split: if_splits)
  with "1.prems" have r: "zsl_vec_sum_inner (Suc j) m dv (dw[j := dw ! j + dv ! j]) \<noteq> None"
    by (subst (asm) zsl_vec_sum_inner.simps) simp
  show ?case
  proof (cases "Suc j < m")
    case True
    with "1.IH" "1.prems" b r show ?thesis by simp
  next
    case False
    with "1.prems" b show ?thesis by simp
  qed
qed

lemma zsl_vec_sum_check_True:
  "zsl_vec_sum_check i n sz_last vs = Some True \<Longrightarrow> i \<le> k \<Longrightarrow> k < n \<Longrightarrow>
   k < length vs \<and> sz (vs ! k) = scast sz_last"
proof (induction i n sz_last vs rule: zsl_vec_sum_check.induct)
  case (1 i n sz_last vs)
  from "1.prems" have lt: "i < n" by simp
  from "1.prems"(1) lt have b: "i < length vs" and e: "scast sz_last = sz (vs ! i)"
    and r: "zsl_vec_sum_check (Suc i) n sz_last vs = Some True"
    by (subst (asm) zsl_vec_sum_check.simps, simp split: if_splits)+
  show ?case
  proof (cases "k = i")
    case True
    with b e show ?thesis by simp
  next
    case False
    with "1.prems" have "Suc i \<le> k" by simp
    with "1.IH" [OF lt b _ r] e "1.prems" show ?thesis by simp
  qed
qed

lemma zsl_vec_sum_check_eq:
  "n \<le> length vs \<Longrightarrow> (\<forall>k. i \<le> k \<and> k < n \<longrightarrow> sz (vs ! k) = scast sz_last) \<Longrightarrow>
   zsl_vec_sum_check i n sz_last vs = Some True"
proof (induction i n sz_last vs rule: zsl_vec_sum_check.induct)
  case (1 i n sz_last vs)
  then show ?case
    by (subst zsl_vec_sum_check.simps) auto
qed

lemma zsl_vec_sum_outer_eq:
  "n \<le> length vs \<Longrightarrow> (\<forall>k. i \<le> k \<and> k < n \<longrightarrow> m \<le> length (data (vs ! k))) \<Longrightarrow>
   m \<le> length dw \<Longrightarrow>
   zsl_vec_sum_outer i n m vs dw =
     Some (map (\<lambda>j. if j < m then dw ! j + (\<Sum>k = i..<n. data (vs ! k) ! j) else dw ! j)
             [0..<length dw])"
proof (induction i n m vs dw rule: zsl_vec_sum_outer.induct)
  case (1 i n m vs dw)
  show ?case
  proof (cases "i < n")
    case False
    then show ?thesis
      by (subst zsl_vec_sum_outer.simps) (auto intro!: nth_equalityI)
  next
    case True
    let ?dw' = "map (\<lambda>k. if 0 \<le> k \<and> k < m then dw ! k + data (vs ! i) ! k else dw ! k)
                  [0..<length dw]"
    from True "1.prems" have il: "i < length vs" and mi: "m \<le> length (data (vs ! i))"
      by simp_all
    have inner: "zsl_vec_sum_inner 0 m (data (vs ! i)) dw = Some ?dw'"
      using mi "1.prems"(3) by (rule zsl_vec_sum_inner_eq)
    have "zsl_vec_sum_outer i n m vs dw = zsl_vec_sum_outer (Suc i) n m vs ?dw'"
      using True il inner by (subst zsl_vec_sum_outer.simps) simp
    also have "\<dots> = Some (map (\<lambda>j. if j < m then ?dw' ! j + (\<Sum>k = Suc i..<n. data (vs ! k) ! j)
                                   else ?dw' ! j) [0..<length ?dw'])"
      using "1.prems" by (intro "1.IH" [OF True il inner]) simp_all
    also have "map (\<lambda>j. if j < m then ?dw' ! j + (\<Sum>k = Suc i..<n. data (vs ! k) ! j)
                                   else ?dw' ! j) [0..<length ?dw'] =
        map (\<lambda>j. if j < m then dw ! j + (\<Sum>k = i..<n. data (vs ! k) ! j) else dw ! j)
             [0..<length dw]"
      using True "1.prems"(3) by (auto simp: sum.atLeast_Suc_lessThan)
    finally show ?thesis .
  qed
qed

lemma zsl_vec_sum_outer_bounds:
  "zsl_vec_sum_outer i n m vs dw \<noteq> None \<Longrightarrow> i < n \<Longrightarrow>
   n \<le> length vs \<and>
   (0 < m \<longrightarrow> m \<le> length dw \<and> (\<forall>k. i \<le> k \<and> k < n \<longrightarrow> m \<le> length (data (vs ! k))))"
proof (induction i n m vs dw rule: zsl_vec_sum_outer.induct)
  case (1 i n m vs dw)
  from "1.prems" have il: "i < length vs"
    by (subst (asm) zsl_vec_sum_outer.simps) (simp split: if_splits)
  from "1.prems" il obtain dw' where
    inner: "zsl_vec_sum_inner 0 m (data (vs ! i)) dw = Some dw'"
    and r: "zsl_vec_sum_outer (Suc i) n m vs dw' \<noteq> None"
    by (subst (asm) zsl_vec_sum_outer.simps) (auto split: option.splits)
  have bi: "0 < m \<longrightarrow> m \<le> length (data (vs ! i)) \<and> m \<le> length dw"
    using zsl_vec_sum_inner_bounds [of 0 m "data (vs ! i)" dw] inner by simp
  show ?case
  proof (cases "Suc i < n")
    case False
    with "1.prems" have "n = Suc i" by simp
    with il bi show ?thesis
      by (auto simp: less_Suc_eq_le)
  next
    case True
    from "1.IH" [OF "1.prems"(2) il inner r True]
    have ih: "n \<le> length vs \<and>
      (0 < m \<longrightarrow> m \<le> length dw' \<and> (\<forall>k. Suc i \<le> k \<and> k < n \<longrightarrow> m \<le> length (data (vs ! k))))" .
    show ?thesis
    proof (intro conjI impI allI)
      show "n \<le> length vs" using ih by simp
      assume m: "0 < m"
      with bi show "m \<le> length dw" by simp
      fix k
      assume k: "i \<le> k \<and> k < n"
      show "m \<le> length (data (vs ! k))"
      proof (cases "k = i")
        case True
        with bi m show ?thesis by simp
      next
        case False
        with k have "Suc i \<le> k \<and> k < n" by simp
        with ih m show ?thesis by simp
      qed
    qed
  qed
qed

lemma zsl_vec_sum_unfold:
  "n \<noteq> 0 \<Longrightarrow> vs \<noteq> [] \<Longrightarrow>
   zsl_vec_sum True vs n w =
     (case zsl_vec_sum_check 0 (unat n) (ucast (sz (vs ! 0))) vs of
        None \<Rightarrow> None
      | Some False \<Rightarrow> Some (- EINVAL, w)
      | Some True \<Rightarrow>
          (case zsl_vec_sum_outer 0 (unat n) (unat (scast (ucast (sz (vs ! 0)) :: 32 word) :: size_t))
                  vs (data w) of
             None \<Rightarrow> None
           | Some d \<Rightarrow> Some (0, w\<lparr>sz := scast (ucast (sz (vs ! 0)) :: 32 word), data := d\<rparr>)))"
  by (simp add: zsl_vec_sum_def Let_def split: option.splits bool.splits)

lemma zsl_vec_sum_okD:
  assumes "zsl_vec_sum True vs n w = Some (0, w')"
  shows "n \<noteq> 0 \<and> vs \<noteq> [] \<and>
     zsl_vec_sum_check 0 (unat n) (ucast (sz (vs ! 0))) vs = Some True \<and>
     (\<exists>d. zsl_vec_sum_outer 0 (unat n) (unat (scast (ucast (sz (vs ! 0)) :: 32 word) :: size_t))
             vs (data w) = Some d \<and>
          w' = w\<lparr>sz := scast (ucast (sz (vs ! 0)) :: 32 word), data := d\<rparr>)"
proof -
  have n0: "n \<noteq> 0"
    using assms by (cases "n = 0") (simp_all add: zsl_vec_sum_def EINVAL_def)
  have ne: "vs \<noteq> []"
    using assms n0 by (cases "vs = []") (simp_all add: zsl_vec_sum_def)
  show ?thesis
    using assms n0 ne unfolding zsl_vec_sum_unfold [OF n0 ne]
    by (simp add: EINVAL_def split: option.splits bool.splits)
qed

text \<open>
  C9.  \<^verbatim>\<open>zsl_vec_sum\<close> does not clear its output.  With bounds checks, whenever a call
  returns 0: \<open>n\<close> is at least 1, the \<open>n\<close> inputs have one declared length, the declared
  length of the output has been overwritten with that of the first input, whatever it was
  before, and every element \<open>j\<close> of the output below that length is its value before the call
  plus the sum of the elements \<open>j\<close> of the inputs.  Such calls exist: the call returns 0 for
  \<open>n \<ge> 1\<close> well-formed inputs of one declared length below \<open>2^31\<close> and an output buffer
  with at least that many slots.
\<close>

theorem zsl_vec_sum_spec:
  "(zsl_vec_sum True vs n w = Some (0, w') \<longrightarrow>
      n \<noteq> 0 \<and> unat n \<le> length vs \<and>
      (\<forall>i < unat n. sz (vs ! i) = sz (vs ! 0)) \<and>
      sz w' = sz (vs ! 0) \<and>
      length (data w') = length (data w) \<and>
      unat (sz w') \<le> length (data w') \<and>
      (\<forall>j < unat (sz w').
          data w' ! j = data w ! j + (\<Sum>i = 0..<unat n. data (vs ! i) ! j))) \<and>
   (n \<noteq> 0 \<and> unat n \<le> length vs \<and>
    (\<forall>i < unat n. sz (vs ! i) = sz (vs ! 0) \<and> wf_vec (vs ! i)) \<and>
    unat (sz (vs ! 0)) < 2 ^ 31 \<and> unat (sz (vs ! 0)) \<le> length (data w) \<longrightarrow>
      (\<exists>w'. zsl_vec_sum True vs n w = Some (0, w')))"
proof (intro conjI impI)
  assume ok: "zsl_vec_sum True vs n w = Some (0, w')"
  let ?szl = "ucast (sz (vs ! 0)) :: 32 word"
  let ?m = "unat (scast ?szl :: size_t)"
  from zsl_vec_sum_okD [OF ok] obtain d where n0: "n \<noteq> 0" and ne: "vs \<noteq> []"
    and chk: "zsl_vec_sum_check 0 (unat n) ?szl vs = Some True"
    and outer: "zsl_vec_sum_outer 0 (unat n) ?m vs (data w) = Some d"
    and w': "w' = w\<lparr>sz := scast ?szl, data := d\<rparr>"
    by blast
  from n0 have un: "0 < unat n"
    by (simp add: unat_gt_0)
  have all: "\<forall>k < unat n. k < length vs \<and> sz (vs ! k) = scast ?szl"
  proof (intro allI impI)
    fix k
    assume "k < unat n"
    with le0 show "k < length vs \<and> sz (vs ! k) = scast ?szl"
      by (rule zsl_vec_sum_check_True [OF chk])
  qed
  then have sz0: "scast ?szl = sz (vs ! 0)"
    using un by metis
  have szw: "sz w' = scast ?szl"
    using w' by simp
  have "zsl_vec_sum_outer 0 (unat n) ?m vs (data w) \<noteq> None"
    using outer by simp
  from zsl_vec_sum_outer_bounds [OF this un]
  have bnd: "unat n \<le> length vs \<and>
     (0 < ?m \<longrightarrow> ?m \<le> length (data w) \<and>
        (\<forall>k. 0 \<le> k \<and> k < unat n \<longrightarrow> ?m \<le> length (data (vs ! k))))" .
  then have b1: "unat n \<le> length vs"
    by blast
  have b2: "?m \<le> length (data w)"
    using bnd by (cases "0 < ?m") simp_all
  have b3: "\<forall>k. 0 \<le> k \<and> k < unat n \<longrightarrow> ?m \<le> length (data (vs ! k))"
    using bnd by (cases "0 < ?m") simp_all
  have d: "d = map (\<lambda>j. if j < ?m then data w ! j + (\<Sum>k = 0..<unat n. data (vs ! k) ! j)
                          else data w ! j) [0..<length (data w)]"
    using zsl_vec_sum_outer_eq [OF b1 b3 b2] outer by simp
  have dw: "data w' = d"
    using w' by simp
  show "n \<noteq> 0" by (rule n0)
  show "unat n \<le> length vs" by (rule b1)
  show "\<forall>i < unat n. sz (vs ! i) = sz (vs ! 0)"
    using all sz0 by metis
  show "sz w' = sz (vs ! 0)"
    using szw sz0 by (rule trans)
  show "length (data w') = length (data w)"
    unfolding dw d by simp
  show "unat (sz w') \<le> length (data w')"
    unfolding dw szw using b2 by (simp add: d)
  show "\<forall>j < unat (sz w').
          data w' ! j = data w ! j + (\<Sum>i = 0..<unat n. data (vs ! i) ! j)"
    unfolding dw szw using b2 by (simp add: d)
next
  assume h: "n \<noteq> 0 \<and> unat n \<le> length vs \<and>
    (\<forall>i < unat n. sz (vs ! i) = sz (vs ! 0) \<and> wf_vec (vs ! i)) \<and>
    unat (sz (vs ! 0)) < 2 ^ 31 \<and> unat (sz (vs ! 0)) \<le> length (data w)"
  let ?szl = "ucast (sz (vs ! 0)) :: 32 word"
  from h have n0: "n \<noteq> 0" and b1: "unat n \<le> length vs"
    and hall: "\<forall>i < unat n. sz (vs ! i) = sz (vs ! 0) \<and> wf_vec (vs ! i)"
    and small: "unat (sz (vs ! 0)) < 2 ^ 31"
    and b2: "unat (sz (vs ! 0)) \<le> length (data w)"
    by blast+
  from n0 have un: "0 < unat n" by (simp add: unat_gt_0)
  with b1 have ne: "vs \<noteq> []" by auto
  have rt: "(scast ?szl :: size_t) = sz (vs ! 0)"
    using small by (rule scast_ucast_small)
  have "\<forall>k. 0 \<le> k \<and> k < unat n \<longrightarrow> sz (vs ! k) = scast ?szl"
    unfolding rt using hall by blast
  with b1 have chk: "zsl_vec_sum_check 0 (unat n) ?szl vs = Some True"
    by (rule zsl_vec_sum_check_eq)
  have b3: "\<forall>k. 0 \<le> k \<and> k < unat n \<longrightarrow> unat (sz (vs ! 0)) \<le> length (data (vs ! k))"
  proof (intro allI impI)
    fix k
    assume "0 \<le> k \<and> k < unat n"
    with hall have "sz (vs ! k) = sz (vs ! 0)" and "wf_vec (vs ! k)"
      by blast+
    then show "unat (sz (vs ! 0)) \<le> length (data (vs ! k))"
      by (metis wf_vec_def)
  qed
  show "\<exists>w'. zsl_vec_sum True vs n w = Some (0, w')"
    unfolding zsl_vec_sum_unfold [OF n0 ne] chk rt
    using zsl_vec_sum_outer_eq [OF b1 b3 b2] by simp
qed

theorem zsl_vec_sum_spec_witness:
  "zsl_vec_sum True [\<lparr>sz = 3, data = [1, 2, 3]\<rparr>, \<lparr>sz = 3, data = [4, 5, 6]\<rparr>] 2
     \<lparr>sz = 1, data = [10, 20, 30]\<rparr> = Some (0, \<lparr>sz = 3, data = [15, 27, 39]\<rparr>) \<and>
   sz \<lparr>sz = 3, data = [15, 27, 39 :: real]\<rparr> =
     sz ([\<lparr>sz = 3, data = [1, 2, 3]\<rparr>, \<lparr>sz = 3, data = [4, 5, 6]\<rparr>] ! 0) \<and>
   unat (sz \<lparr>sz = 1, data = [10, 20, 30 :: real]\<rparr>) <
     unat (sz \<lparr>sz = 3, data = [15, 27, 39 :: real]\<rparr>) \<and>
   data \<lparr>sz = 3, data = [15, 27, 39]\<rparr> ! 2 =
      data \<lparr>sz = 1, data = [10, 20, 30]\<rparr> ! 2 +
      (\<Sum>i = 0..<unat (2 :: size_t).
          data ([\<lparr>sz = 3, data = [1, 2, 3]\<rparr>, \<lparr>sz = 3, data = [4, 5, 6]\<rparr>] ! i) ! 2)"
proof -
  have ev: "zsl_vec_sum True [\<lparr>sz = 3, data = [1, 2, 3]\<rparr>, \<lparr>sz = 3, data = [4, 5, 6]\<rparr>] 2
     \<lparr>sz = 1, data = [10, 20, 30]\<rparr> = Some (0, \<lparr>sz = 3, data = [15, 27, 39]\<rparr>)"
    by (simp add: zsl_vec_sum_def zsl_vec_sum_check.simps zsl_vec_sum_outer.simps
        zsl_vec_sum_inner.simps)
  have lt: "unat (sz \<lparr>sz = 1, data = [10, 20, 30 :: real]\<rparr>) <
            unat (sz \<lparr>sz = 3, data = [15, 27, 39 :: real]\<rparr>)"
    by simp
  have two: "2 < unat (sz \<lparr>sz = 3, data = [15, 27, 39 :: real]\<rparr>)"
    by simp
  from zsl_vec_sum_spec [of "[\<lparr>sz = 3, data = [1, 2, 3]\<rparr>, \<lparr>sz = 3, data = [4, 5, 6]\<rparr>]" 2
      "\<lparr>sz = 1, data = [10, 20, 30]\<rparr>" "\<lparr>sz = 3, data = [15, 27, 39]\<rparr>"] ev lt two
  show ?thesis
    by blast
qed


subsection \<open>Mean of vectors\<close>

lemma zsl_vec_scalar_mult_loop_bounds:
  "zsl_vec_scalar_mult_loop i n s d \<noteq> None \<Longrightarrow> i < n \<Longrightarrow> n \<le> length d"
proof (induction i n s d rule: zsl_vec_scalar_mult_loop.induct)
  case (1 i n s d)
  from "1.prems" have b: "i < length d"
    by (subst (asm) zsl_vec_scalar_mult_loop.simps) (simp split: if_splits)
  with "1.prems" have r: "zsl_vec_scalar_mult_loop (Suc i) n s (d[i := d ! i * s]) \<noteq> None"
    by (subst (asm) zsl_vec_scalar_mult_loop.simps) simp
  show ?case
  proof (cases "Suc i < n")
    case True
    with "1.IH" "1.prems" b r show ?thesis by simp
  next
    case False
    with "1.prems" b show ?thesis by simp
  qed
qed

lemma zsl_vec_scalar_mult_zero:
  assumes "zsl_vec_scalar_mult v 0 = Some (rc, v')"
  shows "sz v' = sz v \<and> (\<forall>j < unat (sz v). data v' ! j = 0)"
proof (cases "0 < unat (sz v)")
  case False
  with assms show ?thesis
    by (auto simp: zsl_vec_scalar_mult_def split: option.splits)
next
  case True
  from assms have "zsl_vec_scalar_mult_loop 0 (unat (sz v)) 0 (data v) \<noteq> None"
    by (auto simp: zsl_vec_scalar_mult_def split: option.splits)
  from zsl_vec_scalar_mult_loop_bounds [OF this True]
  have b: "unat (sz v) \<le> length (data v)" .
  from assms show ?thesis
    unfolding zsl_vec_scalar_mult_eq [OF b] using b by auto
qed

lemma one_div_size_t:
  assumes "2 \<le> unat (n :: size_t)"
  shows "(1 :: size_t) div n = 0"
proof -
  from assms have "n \<noteq> 1"
    by auto
  then show ?thesis
    by simp
qed

text \<open>
  The integer quotient \<^verbatim>\<open>1/n\<close> is 0 for every \<open>n \<ge> 2\<close>: whenever \<^verbatim>\<open>zsl_vec_mean\<close> returns 0
  for two or more inputs, every element of the output is 0.
\<close>

lemma zsl_vec_mean_truncates:
  assumes "zsl_vec_mean chk vs n m = Some (0, m')" and "2 \<le> unat n"
  shows "\<forall>j < unat (sz m'). data m' ! j = 0"
proof -
  from assms(1) obtain m1 rc' where
    sm: "zsl_vec_sum chk vs n m = Some (0, m1)"
    and mu: "zsl_vec_scalar_mult m1 (of_nat (unat ((1 :: size_t) div n))) = Some (rc', m')"
    by (auto simp: zsl_vec_mean_def EINVAL_def split: if_splits option.splits)
  have "of_nat (unat ((1 :: size_t) div n)) = (0 :: real)"
    unfolding one_div_size_t [OF assms(2)] by simp
  with mu have "zsl_vec_scalar_mult m1 0 = Some (rc', m')"
    by (simp only:)
  from zsl_vec_scalar_mult_zero [OF this] show ?thesis
    by simp
qed

text \<open>
  C1.  The mean of \<open>(2, 4)\<close> and \<open>(4, 8)\<close> is \<open>(3, 6)\<close>; \<^verbatim>\<open>zsl_vec_mean\<close>, called with a
  cleared output, returns 0 and leaves \<open>(0, 0)\<close> in it: the sum \<open>(6, 12)\<close> has been
  multiplied by the integer quotient \<^verbatim>\<open>1/2 = 0\<close>.
\<close>

theorem zsl_vec_mean_two_inputs:
  "zsl_vec_mean True [\<lparr>sz = 2, data = [2, 4]\<rparr>, \<lparr>sz = 2, data = [4, 8]\<rparr>] 2
     \<lparr>sz = 2, data = [0, 0]\<rparr> = Some (0, \<lparr>sz = 2, data = [0, 0]\<rparr>)"
  by (simp add: zsl_vec_mean_def zsl_vec_sum_def zsl_vec_sum_check.simps zsl_vec_sum_outer.simps
      zsl_vec_sum_inner.simps zsl_vec_scalar_mult_def zsl_vec_scalar_mult_loop.simps)

text \<open>
  With one input the quotient is 1, and the output holds the input added to what the output
  held before the call, since \<^verbatim>\<open>zsl_vec_sum\<close> accumulates into it.
\<close>

lemma zsl_vec_mean_one_input:
  "zsl_vec_mean True [\<lparr>sz = 2, data = [2, 4]\<rparr>] 1
     \<lparr>sz = 2, data = [5, 5]\<rparr> = Some (0, \<lparr>sz = 2, data = [7, 9]\<rparr>)"
  by (simp add: zsl_vec_mean_def zsl_vec_sum_def zsl_vec_sum_check.simps zsl_vec_sum_outer.simps
      zsl_vec_sum_inner.simps zsl_vec_scalar_mult_def zsl_vec_scalar_mult_loop.simps)

subsection \<open>Subset of a vector\<close>

lemma unat_add_size_t:
  "unat (a :: size_t) + unat b < 2 ^ 64 \<Longrightarrow> unat (a + b) = unat a + unat b"
  using unat_add_lem [of a b] by simp

lemma memcpy_real_eq:
  assumes "k * 8 < 2 ^ 64" and "unat len = k" and "k \<le> length dst" and "off + k \<le> length src"
  shows "memcpy_real dst src off (len * sizeof_zsl_real_t) =
         Some (take k (drop off src) @ drop k dst)"
proof -
  from assms(1,2) have "unat len * 8 < 2 ^ 64"
    by simp
  then have "unat (len * sizeof_zsl_real_t) div unat sizeof_zsl_real_t = unat len"
    by (rule unat_mult_sizeof_eq)
  with assms show ?thesis
    by (simp add: memcpy_real_def Let_def)
qed

text \<open>
  C2, as stated, fails: for a source of 5 elements, offset 2 and requested length 10 the
  request is truncated to 3 elements, and a destination of declared length 2 is then too
  short; the call returns \<^verbatim>\<open>-EINVAL\<close> and copies nothing.
\<close>

theorem zsl_vec_get_subset_counterexample:
  "(2 :: size_t) < sz \<lparr>sz = 5, data = [1, 2, 3, 4, 5]\<rparr> \<and>
   unat (sz \<lparr>sz = 5, data = [1, 2, 3, 4, 5 :: real]\<rparr>) < unat (2 :: size_t) + unat (10 :: size_t) \<and>
   zsl_vec_get_subset True \<lparr>sz = 5, data = [1, 2, 3, 4, 5]\<rparr> 2 10 \<lparr>sz = 2, data = [0, 0]\<rparr> =
     Some (- EINVAL, \<lparr>sz = 2, data = [0, 0]\<rparr>) \<and>
   - EINVAL \<noteq> 0"
  by (simp add: zsl_vec_get_subset_def EINVAL_def)

text \<open>
  C2, amended.  With bounds checks, for \<open>offset < v->sz\<close> and a requested length with
  \<open>offset + len\<close> above \<open>v->sz\<close> and representable in \<^verbatim>\<open>size_t\<close>: when the destination's
  declared length is at least \<open>v->sz - offset\<close> the call returns 0, the first
  \<open>v->sz - offset\<close> slots of the destination hold the source elements from \<open>offset\<close> on,
  and the destination's declared length is \<open>v->sz - offset\<close> (never more than it was);
  when the destination's declared length is smaller, the call returns \<^verbatim>\<open>-EINVAL\<close> and the
  destination is unchanged.  For \<open>offset \<ge> v->sz\<close> the call returns \<^verbatim>\<open>-EINVAL\<close> and the
  destination is unchanged.
\<close>

theorem zsl_vec_get_subset_spec:
  "(wf_vec v \<and> wf_vec vsub \<and> offset < sz v \<and>
    unat (sz v) < unat offset + unat len \<and> unat offset + unat len < 2 ^ 64 \<longrightarrow>
      unat (sz v - offset) = unat (sz v) - unat offset \<and>
      (sz v - offset \<le> sz vsub \<longrightarrow>
         zsl_vec_get_subset True v offset len vsub =
           Some (0, vsub\<lparr>sz := sz v - offset,
                         data := take (unat (sz v) - unat offset) (drop (unat offset) (data v)) @
                                 drop (unat (sz v) - unat offset) (data vsub)\<rparr>)) \<and>
      (sz vsub < sz v - offset \<longrightarrow>
         zsl_vec_get_subset True v offset len vsub = Some (- EINVAL, vsub))) \<and>
   (sz v \<le> offset \<longrightarrow> zsl_vec_get_subset True v offset len vsub = Some (- EINVAL, vsub))"
proof (intro conjI impI)
  assume "sz v \<le> offset"
  then show "zsl_vec_get_subset True v offset len vsub = Some (- EINVAL, vsub)"
    by (simp add: zsl_vec_get_subset_def)
next
  assume h: "wf_vec v \<and> wf_vec vsub \<and> offset < sz v \<and>
    unat (sz v) < unat offset + unat len \<and> unat offset + unat len < 2 ^ 64"
  then have lt: "offset < sz v" by blast
  then show "unat (sz v - offset) = unat (sz v) - unat offset"
    by unat_arith
next
  assume h: "wf_vec v \<and> wf_vec vsub \<and> offset < sz v \<and>
    unat (sz v) < unat offset + unat len \<and> unat offset + unat len < 2 ^ 64"
  assume small: "sz vsub < sz v - offset"
  from h have lt: "offset < sz v" and ex: "unat (sz v) < unat offset + unat len"
    and no: "unat offset + unat len < 2 ^ 64"
    by blast+
  have "unat (offset + len) = unat offset + unat len"
    using no by (rule unat_add_size_t)
  with ex have ge: "sz v \<le> offset + len"
    by (simp add: word_le_nat_alt)
  show "zsl_vec_get_subset True v offset len vsub = Some (- EINVAL, vsub)"
    using ge small by (simp add: zsl_vec_get_subset_def Let_def)
next
  assume h: "wf_vec v \<and> wf_vec vsub \<and> offset < sz v \<and>
    unat (sz v) < unat offset + unat len \<and> unat offset + unat len < 2 ^ 64"
  assume fits: "sz v - offset \<le> sz vsub"
  let ?k = "unat (sz v) - unat offset"
  from h have wv: "wf_vec v" and ws: "wf_vec vsub" and lt: "offset < sz v"
    and ex: "unat (sz v) < unat offset + unat len"
    and no: "unat offset + unat len < 2 ^ 64"
    by blast+
  have "unat (offset + len) = unat offset + unat len"
    using no by (rule unat_add_size_t)
  with ex have ge: "sz v \<le> offset + len"
    by (simp add: word_le_nat_alt)
  have uk: "unat (sz v - offset) = ?k"
    using lt by unat_arith
  have lv: "unat (sz v) \<le> length (data v)" and cv: "length (data v) * 8 < 2 ^ 64"
    and ls: "unat (sz vsub) \<le> length (data vsub)"
    using wv ws by (simp_all add: wf_vec_def)
  have k8: "?k * 8 < 2 ^ 64"
    using lv cv by linarith
  have kd: "?k \<le> length (data vsub)"
    using fits ls uk by (simp add: word_le_nat_alt)
  have ko: "unat offset + ?k \<le> length (data v)"
    using lt lv by (simp add: word_less_nat_alt)
  have v1: "(if sz v - offset < sz vsub then vsub\<lparr>sz := sz v - offset\<rparr> else vsub) =
            vsub\<lparr>sz := sz v - offset\<rparr>"
    using fits by (cases "sz v - offset < sz vsub") auto
  have cp: "memcpy_real (data vsub) (data v) (unat offset) ((sz v - offset) * sizeof_zsl_real_t) =
      Some (take ?k (drop (unat offset) (data v)) @ drop ?k (data vsub))"
    using k8 uk kd ko by (rule memcpy_real_eq)
  have nl: "\<not> sz vsub < sz v - offset"
    using fits by simp
  have no': "\<not> sz v \<le> offset"
    using lt by simp
  show "zsl_vec_get_subset True v offset len vsub =
           Some (0, vsub\<lparr>sz := sz v - offset,
                         data := take ?k (drop (unat offset) (data v)) @ drop ?k (data vsub)\<rparr>)"
    using no' ge nl by (simp add: zsl_vec_get_subset_def Let_def v1 cp)
qed

theorem zsl_vec_get_subset_spec_witness:
  "zsl_vec_get_subset True \<lparr>sz = 5, data = [1, 2, 3, 4, 5]\<rparr> 2 10 \<lparr>sz = 4, data = [0, 0, 0, 0]\<rparr> =
     Some (0, \<lparr>sz = 3, data = [3, 4, 5, 0]\<rparr>) \<and>
   zsl_vec_get_subset True \<lparr>sz = 5, data = [1, 2, 3, 4, 5]\<rparr> 2 10 \<lparr>sz = 2, data = [0, 0]\<rparr> =
     Some (- EINVAL, \<lparr>sz = 2, data = [0, 0]\<rparr>) \<and>
   zsl_vec_get_subset True \<lparr>sz = 5, data = [1, 2, 3, 4, 5]\<rparr> 5 10 \<lparr>sz = 4, data = [0, 0, 0, 0]\<rparr> =
     Some (- EINVAL, \<lparr>sz = 4, data = [0, 0, 0, 0]\<rparr>)"
proof -
  have w: "wf_vec \<lparr>sz = 5, data = [1, 2, 3, 4, 5]\<rparr>" "wf_vec \<lparr>sz = 4, data = [0, 0, 0, 0]\<rparr>"
    "wf_vec \<lparr>sz = 2, data = [0, 0]\<rparr>"
    by (simp_all add: wf_vec_def)
  show ?thesis
    using zsl_vec_get_subset_spec [of "\<lparr>sz = 5, data = [1, 2, 3, 4, 5]\<rparr>"
        "\<lparr>sz = 4, data = [0, 0, 0, 0]\<rparr>" 2 10]
      zsl_vec_get_subset_spec [of "\<lparr>sz = 5, data = [1, 2, 3, 4, 5]\<rparr>"
        "\<lparr>sz = 2, data = [0, 0]\<rparr>" 2 10]
      zsl_vec_get_subset_spec [of "\<lparr>sz = 5, data = [1, 2, 3, 4, 5]\<rparr>"
        "\<lparr>sz = 4, data = [0, 0, 0, 0]\<rparr>" 5 10] w
    by simp
qed


section \<open>Determinant and inverse\<close>

subsection \<open>Expansion of the determinant along rows and columns\<close>

lemma skip_0 [simp]: "skip 0 r = Suc r"
  by (simp add: skip_def)

lemma skip_Suc_Suc [simp]: "skip (Suc i) (Suc r) = Suc (skip i r)"
  by (simp add: skip_def)

lemma skip_Suc_0 [simp]: "skip (Suc i) 0 = 0"
  by (simp add: skip_def)

lemma del_row_col_commute:
  "del_row_col i 0 (del_row_col 0 (Suc k) a) = del_row_col 0 k (del_row_col (Suc i) 0 a)"
  by (simp add: del_row_col_def fun_eq_iff)

text \<open>Expansion along the first column.\<close>

lemma det_first_column:
  "det (Suc n) a = (\<Sum>i<Suc n. (- 1) ^ i * a i 0 * det n (del_row_col i 0 a))"
proof (induction n arbitrary: a)
  case 0
  show ?case by simp
next
  case (Suc n)
  let ?D = "\<lambda>i k. det n (del_row_col i 0 (del_row_col 0 (Suc k) a))"
  have row: "det (Suc (Suc n)) a =
      a 0 0 * det (Suc n) (del_row_col 0 0 a) +
      (\<Sum>k<Suc n. (- 1) ^ Suc k * a 0 (Suc k) * det (Suc n) (del_row_col 0 (Suc k) a))"
    by (subst det.simps(2)) (simp only: sum.lessThan_Suc_shift power_0 mult_1)
  have inner_row: "det (Suc n) (del_row_col 0 (Suc k) a) =
      (\<Sum>i<Suc n. (- 1) ^ i * a (Suc i) 0 * ?D i k)" for k
    by (subst Suc.IH) (simp add: del_row_col_def)
  have col: "(\<Sum>i<Suc (Suc n). (- 1) ^ i * a i 0 * det (Suc n) (del_row_col i 0 a)) =
      a 0 0 * det (Suc n) (del_row_col 0 0 a) +
      (\<Sum>i<Suc n. (- 1) ^ Suc i * a (Suc i) 0 * det (Suc n) (del_row_col (Suc i) 0 a))"
    by (simp only: sum.lessThan_Suc_shift power_0 mult_1)
  have inner_col: "det (Suc n) (del_row_col (Suc i) 0 a) =
      (\<Sum>k<Suc n. (- 1) ^ k * a 0 (Suc k) * ?D i k)" for i
    by (subst det.simps(2)) (simp add: del_row_col_commute, simp add: del_row_col_def)
  have "(\<Sum>k<Suc n. (- 1) ^ Suc k * a 0 (Suc k) * det (Suc n) (del_row_col 0 (Suc k) a)) =
        (\<Sum>k<Suc n. \<Sum>i<Suc n. (- 1) ^ Suc k * a 0 (Suc k) * ((- 1) ^ i * a (Suc i) 0 * ?D i k))"
    by (simp only: inner_row sum_distrib_left)
  also have "\<dots> = (\<Sum>i<Suc n. \<Sum>k<Suc n.
        (- 1) ^ Suc k * a 0 (Suc k) * ((- 1) ^ i * a (Suc i) 0 * ?D i k))"
    by (rule sum.swap)
  also have "\<dots> = (\<Sum>i<Suc n. \<Sum>k<Suc n.
        (- 1) ^ Suc i * a (Suc i) 0 * ((- 1) ^ k * a 0 (Suc k) * ?D i k))"
    by (intro sum.cong refl) simp
  also have "\<dots> = (\<Sum>i<Suc n. (- 1) ^ Suc i * a (Suc i) 0 * det (Suc n) (del_row_col (Suc i) 0 a))"
    by (simp only: inner_col sum_distrib_left)
  finally show ?case
    by (simp only: row col)
qed

lemma det_adjacent_rows_eq:
  "Suc r < n \<Longrightarrow> a r = a (Suc r) \<Longrightarrow> det n a = 0"
proof (induction n arbitrary: a r)
  case 0
  then show ?case by simp
next
  case (Suc m)
  let ?f = "\<lambda>i. (- 1) ^ i * a i 0 * det m (del_row_col i 0 a)"
  from Suc.prems have rm: "r < m" by simp
  have zero: "?f i = 0" if "i < Suc m" and "i \<noteq> r" and "i \<noteq> Suc r" for i
  proof (cases "i < r")
    case True
    then obtain r' where r': "r = Suc r'"
      by (cases r) simp_all
    have "del_row_col i 0 a r' = del_row_col i 0 a (Suc r')"
      using True r' Suc.prems(2) by (simp add: del_row_col_def skip_def)
    moreover have "Suc r' < m"
      using rm r' by simp
    ultimately have "det m (del_row_col i 0 a) = 0"
      by (rule Suc.IH [rotated])
    then show ?thesis by simp
  next
    case False
    with that have gt: "Suc r < i" by simp
    have "del_row_col i 0 a r = del_row_col i 0 a (Suc r)"
      using gt Suc.prems(2) by (simp add: del_row_col_def skip_def)
    moreover have "Suc r < m"
      using gt that(1) by simp
    ultimately have "det m (del_row_col i 0 a) = 0"
      by (rule Suc.IH [rotated])
    then show ?thesis by simp
  qed
  have same: "del_row_col r 0 a = del_row_col (Suc r) 0 a"
  proof (intro ext)
    fix x c
    consider "x < r" | "x = r" | "r < x" by linarith
    then show "del_row_col r 0 a x c = del_row_col (Suc r) 0 a x c"
      using Suc.prems(2) by cases (simp_all add: del_row_col_def skip_def)
  qed
  have "det (Suc m) a = (\<Sum>i<Suc m. ?f i)"
    by (rule det_first_column)
  also have "\<dots> = (\<Sum>i\<in>{r, Suc r}. ?f i)"
  proof (rule sum.mono_neutral_right)
    show "finite {..<Suc m}" by simp
    show "{r, Suc r} \<subseteq> {..<Suc m}" using rm by simp
    show "\<forall>i\<in>{..<Suc m} - {r, Suc r}. ?f i = 0"
      using zero by simp
  qed
  also have "\<dots> = ?f r + ?f (Suc r)"
    by simp
  also have "\<dots> = 0"
    using Suc.prems(2) by (simp add: same)
  finally show ?case .
qed

lemma det_row_add:
  "r < n \<Longrightarrow> (\<forall>i. i \<noteq> r \<longrightarrow> b i = a i \<and> c i = a i) \<Longrightarrow>
   (\<forall>j. c r j = a r j + b r j) \<Longrightarrow> det n c = det n a + det n b"
proof (induction n arbitrary: a b c r)
  case 0
  then show ?case by simp
next
  case (Suc m)
  let ?f = "\<lambda>x i. (- 1) ^ i * x i 0 * det m (del_row_col i 0 x)"
  have tm: "?f c i = ?f a i + ?f b i" if i: "i < Suc m" for i
  proof (cases "i = r")
    case True
    have "del_row_col r 0 c = del_row_col r 0 a" "del_row_col r 0 b = del_row_col r 0 a"
      using Suc.prems(2) by (auto simp: del_row_col_def skip_def fun_eq_iff)
    then show ?thesis
      using True Suc.prems(3) by (simp add: algebra_simps)
  next
    case False
    define r' where "r' = (if i < r then r - 1 else r)"
    have sk: "skip i r' = r"
      using False by (auto simp: r'_def skip_def)
    have inj: "skip i x = r \<Longrightarrow> x = r'" for x
      using False by (auto simp: r'_def skip_def split: if_splits)
    have "r' < m"
      using False i Suc.prems(1) by (auto simp: r'_def)
    moreover have "\<forall>x. x \<noteq> r' \<longrightarrow> del_row_col i 0 b x = del_row_col i 0 a x \<and>
        del_row_col i 0 c x = del_row_col i 0 a x"
      using Suc.prems(2) inj by (auto simp: del_row_col_def fun_eq_iff)
    moreover have "\<forall>j. del_row_col i 0 c r' j = del_row_col i 0 a r' j + del_row_col i 0 b r' j"
      using Suc.prems(3) by (simp add: del_row_col_def sk)
    ultimately have "det m (del_row_col i 0 c) =
        det m (del_row_col i 0 a) + det m (del_row_col i 0 b)"
      by (rule Suc.IH)
    moreover have "c i 0 = a i 0" "b i 0 = a i 0"
      using False Suc.prems(2) by simp_all
    ultimately show ?thesis
      by (simp add: algebra_simps)
  qed
  have "det (Suc m) c = (\<Sum>i<Suc m. ?f c i)"
    by (rule det_first_column)
  also have "\<dots> = (\<Sum>i<Suc m. ?f a i + ?f b i)"
    using tm by (intro sum.cong refl) simp
  also have "\<dots> = (\<Sum>i<Suc m. ?f a i) + (\<Sum>i<Suc m. ?f b i)"
    by (rule sum.distrib)
  also have "\<dots> = det (Suc m) a + det (Suc m) b"
    by (simp only: det_first_column [symmetric])
  finally show ?case .
qed

lemma det_swap_adjacent:
  assumes "Suc r < n"
  shows "det n (a(r := a (Suc r), Suc r := a r)) = - det n a"
proof -
  let ?x = "a r" and ?y = "a (Suc r)"
  let ?s = "\<lambda>j. a r j + a (Suc r) j"
  let ?M = "\<lambda>u v. a(r := u, Suc r := v)"
  from assms have r: "r < n" by simp
  have z1: "det n (?M ?s ?s) = 0"
    using assms by (rule det_adjacent_rows_eq) simp
  have z2: "det n (?M ?x ?x) = 0"
    using assms by (rule det_adjacent_rows_eq) simp
  have z3: "det n (?M ?y ?y) = 0"
    using assms by (rule det_adjacent_rows_eq) simp
  have e1: "det n (?M ?s ?s) = det n (?M ?x ?s) + det n (?M ?y ?s)"
    using r by (rule det_row_add) auto
  have e2: "det n (?M ?x ?s) = det n (?M ?x ?x) + det n (?M ?x ?y)"
    using assms by (rule det_row_add) auto
  have e3: "det n (?M ?y ?s) = det n (?M ?y ?x) + det n (?M ?y ?y)"
    using assms by (rule det_row_add) auto
  have id: "?M ?x ?y = a"
    by (simp add: fun_eq_iff)
  from z1 z2 z3 e1 e2 e3 show ?thesis
    by (simp add: id)
qed

lemma det_rows_eq:
  "i < j \<Longrightarrow> j < n \<Longrightarrow> a i = a j \<Longrightarrow> det n a = 0"
proof (induction "j - i" arbitrary: a j)
  case 0
  then show ?case by simp
next
  case (Suc d)
  show ?case
  proof (cases "j = Suc i")
    case True
    with Suc.prems show ?thesis
      by (intro det_adjacent_rows_eq [of i]) simp_all
  next
    case False
    with Suc.prems obtain j' where j': "j = Suc j'" and ij': "i < j'"
      by (cases j) auto
    let ?b = "a(j' := a (Suc j'), Suc j' := a j')"
    have "det n ?b = - det n a"
      using Suc.prems(2) j' by (intro det_swap_adjacent) simp
    moreover have "det n ?b = 0"
    proof (rule Suc.hyps(1))
      show "d = j' - i" using Suc.hyps(2) j' by simp
      show "i < j'" by (rule ij')
      show "j' < n" using Suc.prems(2) j' by simp
      show "?b i = ?b j'" using ij' j' Suc.prems(3) by simp
    qed
    ultimately show ?thesis by simp
  qed
qed

lemma det_row_to_top:
  "j < n \<Longrightarrow> det n (row_to_top j a) = (- 1) ^ j * det n a"
proof (induction j arbitrary: a)
  case 0
  have "row_to_top 0 a = a"
    by (auto simp: row_to_top_def fun_eq_iff)
  then show ?case by simp
next
  case (Suc j)
  let ?b = "a(j := a (Suc j), Suc j := a j)"
  have "row_to_top (Suc j) a = row_to_top j ?b"
    by (auto simp: row_to_top_def fun_eq_iff)
  moreover have "det n (row_to_top j ?b) = (- 1) ^ j * det n ?b"
    using Suc.prems by (intro Suc.IH) simp
  moreover have "det n ?b = - det n a"
    using Suc.prems by (rule det_swap_adjacent)
  ultimately show ?case by simp
qed

lemma del_row_col_row_to_top:
  "del_row_col 0 k (row_to_top j a) = del_row_col j k a"
  by (auto simp: del_row_col_def row_to_top_def skip_def fun_eq_iff)

text \<open>Expansion along row \<open>j\<close>.\<close>

lemma det_row_expansion:
  assumes "j < Suc m"
  shows "(\<Sum>k<Suc m. (- 1) ^ (j + k) * a j k * det m (del_row_col j k a)) = det (Suc m) a"
proof -
  have "det (Suc m) (row_to_top j a) =
        (\<Sum>k<Suc m. (- 1) ^ k * a j k * det m (del_row_col j k a))"
    by (simp add: del_row_col_row_to_top) (simp add: row_to_top_def)
  also have "det (Suc m) (row_to_top j a) = (- 1) ^ j * det (Suc m) a"
    using assms by (rule det_row_to_top)
  finally have e: "(\<Sum>k<Suc m. (- 1) ^ k * a j k * det m (del_row_col j k a)) =
      (- 1) ^ j * det (Suc m) a"
    by (rule sym)
  have "(\<Sum>k<Suc m. (- 1) ^ (j + k) * a j k * det m (del_row_col j k a)) =
        (- 1) ^ j * (\<Sum>k<Suc m. (- 1) ^ k * a j k * det m (del_row_col j k a))"
    by (simp only: sum_distrib_left power_add mult.assoc)
  also have "\<dots> = (- 1) ^ j * ((- 1) ^ j * det (Suc m) a)"
    by (simp only: e)
  also have "\<dots> = det (Suc m) a"
    by (rule left_minus_one_mult_self)
  finally show ?thesis .
qed

text \<open>Expansion with the cofactors of another row.\<close>

lemma det_alien_row_expansion:
  assumes "i < Suc m" and "j < Suc m" and "i \<noteq> j"
  shows "(\<Sum>k<Suc m. (- 1) ^ (j + k) * a i k * det m (del_row_col j k a)) = 0"
proof -
  let ?b = "a(j := a i)"
  have del: "del_row_col j k ?b = del_row_col j k a" for k
    by (auto simp: del_row_col_def skip_def fun_eq_iff)
  have "(\<Sum>k<Suc m. (- 1) ^ (j + k) * ?b j k * det m (del_row_col j k ?b)) = det (Suc m) ?b"
    using assms(2) by (rule det_row_expansion)
  moreover have "det (Suc m) ?b = 0"
  proof (cases "i < j")
    case True
    then show ?thesis
      using assms(2) by (rule det_rows_eq) simp
  next
    case False
    with assms(3) have "j < i" by simp
    then show ?thesis
      using assms(1) by (rule det_rows_eq) simp
  qed
  ultimately show ?thesis
    by (simp only: del fun_upd_same)
qed

lemma deter_recur_det: "deter_recur n a = det n a"
proof (induction n arbitrary: a rule: less_induct)
  case (less n)
  consider "n = 0" | "n = 1" | "n = 2" | "3 \<le> n" by linarith
  then show ?case
  proof cases
    case 1
    then show ?thesis by (simp add: deter_recur.simps)
  next
    case 2
    then show ?thesis by (simp add: deter_recur.simps)
  next
    case 3
    then show ?thesis
      by (simp add: deter_recur.simps numeral_2_eq_2 del_row_col_def)
  next
    case 4
    then obtain m where m: "n = Suc m" and m2: "2 \<le> m"
      by (cases n) auto
    have "deter_recur n a =
        (\<Sum>j<n. a 0 j * ((- 1) ^ (0 + j) * deter_recur (n - 1) (del_row_col 0 j a)))"
      using 4 by (subst deter_recur.simps) simp
    also have "\<dots> = (\<Sum>j<Suc m. (- 1) ^ j * a 0 j * det m (del_row_col 0 j a))"
      unfolding m by (intro sum.cong refl) (simp add: less.IH m)
    finally show ?thesis
      by (simp only: m det.simps)
  qed
qed

subsection \<open>Inverse by the adjugate\<close>

lemma row_major_index:
  fixes i j r c :: nat
  assumes "i < r" and "j < c"
  shows "i * c + j < r * c" and "(i * c + j) div c = i" and "(i * c + j) mod c = j"
proof -
  have "i * c + j < i * c + c"
    using assms(2) by simp
  also have "\<dots> = Suc i * c"
    by simp
  also have "\<dots> \<le> r * c"
    using assms(1) by (intro mult_le_mono1) simp
  finally show "i * c + j < r * c" .
  show "(i * c + j) div c = i" "(i * c + j) mod c = j"
    using assms(2) by simp_all
qed

lemma zsl_mtx_entry_written:
  assumes "i < unat (sz_rows m)" and "j < unat (sz_cols m)"
  shows "zsl_mtx_entry
           (m\<lparr>zsl_mtx.data := map f [0..<unat (sz_rows m) * unat (sz_cols m)] @ rest\<rparr>) i j =
         f (i * unat (sz_cols m) + j)"
  using row_major_index(1) [OF assms] by (simp add: zsl_mtx_entry_def nth_append)

lemma adjugate_product:
  assumes "i < n" and "j < n"
  shows "(\<Sum>k<n. a i k * ((- 1) ^ (j + k) * deter_recur (n - 1) (del_row_col j k a))) =
         (if i = j then deter_recur n a else 0)"
proof -
  from assms obtain m where n: "n = Suc m"
    by (cases n) simp_all
  have "(\<Sum>k<n. a i k * ((- 1) ^ (j + k) * deter_recur (n - 1) (del_row_col j k a))) =
        (\<Sum>k<Suc m. (- 1) ^ (j + k) * a i k * det m (del_row_col j k a))"
    unfolding n by (intro sum.cong refl) (simp add: deter_recur_det)
  also have "\<dots> = (if i = j then det (Suc m) a else 0)"
    using assms det_row_expansion [of j m a] det_alien_row_expansion [of i m j a]
    unfolding n by (simp only: split: if_splits) auto
  finally show ?thesis
    by (simp only: deter_recur_det n)
qed

lemma upt_4: "[0..<4] = [0, 1, 2, 3]"
  by (simp add: upt_rec)

lemma sum_lessThan_2: "(\<Sum>l<(2::nat). f l) = f 0 + (f 1 :: real)"
  by (simp add: numeral_2_eq_2)


text \<open>
  C4.  For a square matrix \<open>m\<close> and output matrices of its shape: \<^verbatim>\<open>zsl_mtx_inv\<close> returns
  the singular-matrix error exactly when the determinant of \<open>m\<close> is zero, and the output
  is then unchanged; when the determinant is not zero it succeeds, every entry of the
  output is the entry of the adjugate divided by the determinant, and \<^verbatim>\<open>zsl_mtx_mult\<close> of
  \<open>m\<close> and that output succeeds and gives the identity matrix.
\<close>

theorem zsl_mtx_inv_spec:
  assumes "sz_rows m = sz_cols m"
    and "sz_rows mi = sz_rows m" and "sz_cols mi = sz_cols m"
    and "sz_rows mc = sz_rows m" and "sz_cols mc = sz_cols m"
    and "wf_mtx m" and "wf_mtx mi" and "wf_mtx mc"
  shows "((\<exists>x. zsl_mtx_inv m mi = Some (Singular, x)) \<longleftrightarrow> zsl_mtx_deter_recur m = 0) \<and>
    (zsl_mtx_deter_recur m = 0 \<longrightarrow> zsl_mtx_inv m mi = Some (Singular, mi)) \<and>
    (zsl_mtx_deter_recur m \<noteq> 0 \<longrightarrow>
       (\<exists>mi'. zsl_mtx_inv m mi = Some (Ok, mi') \<and>
          sz_rows mi' = sz_rows m \<and> sz_cols mi' = sz_cols m \<and>
          (\<forall>i < unat (sz_rows m). \<forall>j < unat (sz_rows m).
              zsl_mtx_entry mi' i j = zsl_mtx_adjoint m i j / zsl_mtx_deter_recur m) \<and>
          (\<exists>mc'. zsl_mtx_mult m mi' mc = Some (Ok, mc') \<and>
             (\<forall>i < unat (sz_rows m). \<forall>j < unat (sz_rows m).
                 zsl_mtx_entry mc' i j = (if i = j then 1 else 0)))))"
proof -
  let ?n = "unat (sz_rows m)"
  let ?d = "zsl_mtx_deter_recur m"
  let ?a = "zsl_mtx_entry m"
  let ?inv = "\<lambda>p. zsl_mtx_adjoint m (p div ?n) (p mod ?n) / ?d"
  let ?mi' = "mi\<lparr>zsl_mtx.data := map ?inv [0..<?n * ?n] @ drop (?n * ?n) (zsl_mtx.data mi)\<rparr>"
  have cols: "unat (sz_cols m) = ?n" "unat (sz_cols mi) = ?n" "unat (sz_rows mi) = ?n"
    "unat (sz_cols mc) = ?n" "unat (sz_rows mc) = ?n"
    using assms(1-5) by simp_all
  have len: "?n * ?n \<le> length (zsl_mtx.data m)" "?n * ?n \<le> length (zsl_mtx.data mi)"
    "?n * ?n \<le> length (zsl_mtx.data mc)"
    using assms(6-8) cols by (simp_all add: wf_mtx_def)
  have sing: "zsl_mtx_inv m mi = Some (Singular, mi)" if "?d = 0"
    using that assms(1-3) len by (simp add: zsl_mtx_inv_def Let_def)
  have ok: "zsl_mtx_inv m mi = Some (Ok, ?mi')" if "?d \<noteq> 0"
    using that assms(1-3) len by (simp add: zsl_mtx_inv_def Let_def)
  have iff: "(\<exists>x. zsl_mtx_inv m mi = Some (Singular, x)) \<longleftrightarrow> ?d = 0"
    using sing ok by (cases "?d = 0") auto
  have ent: "zsl_mtx_entry ?mi' i j = zsl_mtx_adjoint m i j / ?d" if "i < ?n" and "j < ?n" for i j
  proof -
    have idx: "(i * ?n + j) div ?n = i" "(i * ?n + j) mod ?n = j"
      by (rule row_major_index [OF that])+
    have "i < unat (sz_rows mi)" "j < unat (sz_cols mi)"
      using that by (simp_all only: cols)
    then have "zsl_mtx_entry (mi\<lparr>zsl_mtx.data :=
            map ?inv [0..<unat (sz_rows mi) * unat (sz_cols mi)] @
            drop (?n * ?n) (zsl_mtx.data mi)\<rparr>) i j = ?inv (i * unat (sz_cols mi) + j)"
      by (rule zsl_mtx_entry_written)
    then show ?thesis
      unfolding cols idx .
  qed
  have lenmi: "?n * ?n \<le> length (zsl_mtx.data ?mi')"
    using len by simp
  let ?prod = "\<lambda>p. \<Sum>l<?n. zsl_mtx_entry m (p div ?n) l * zsl_mtx_entry ?mi' l (p mod ?n)"
  let ?mc' = "mc\<lparr>zsl_mtx.data := map ?prod [0..<?n * ?n] @ drop (?n * ?n) (zsl_mtx.data mc)\<rparr>"
  have mult: "zsl_mtx_mult m ?mi' mc = Some (Ok, ?mc')"
    using assms(1-5) len lenmi by (simp add: zsl_mtx_mult_def Let_def)
  have ident: "zsl_mtx_entry ?mc' i j = (if i = j then 1 else 0)"
    if d: "?d \<noteq> 0" and i: "i < ?n" and j: "j < ?n" for i j
  proof -
    have idx: "(i * ?n + j) div ?n = i" "(i * ?n + j) mod ?n = j"
      by (rule row_major_index [OF i j])+
    have "i < unat (sz_rows mc)" "j < unat (sz_cols mc)"
      using i j by (simp_all only: cols)
    then have "zsl_mtx_entry (mc\<lparr>zsl_mtx.data :=
            map ?prod [0..<unat (sz_rows mc) * unat (sz_cols mc)] @
            drop (?n * ?n) (zsl_mtx.data mc)\<rparr>) i j = ?prod (i * unat (sz_cols mc) + j)"
      by (rule zsl_mtx_entry_written)
    then have "zsl_mtx_entry ?mc' i j = (\<Sum>l<?n. ?a i l * zsl_mtx_entry ?mi' l j)"
      unfolding cols idx .
    also have "\<dots> = (\<Sum>l<?n. ?a i l * (zsl_mtx_adjoint m l j / ?d))"
      using j by (intro sum.cong refl) (simp add: ent)
    also have "\<dots> = (\<Sum>l<?n. ?a i l *
        ((- 1) ^ (j + l) * deter_recur (?n - 1) (del_row_col j l ?a))) / ?d"
      by (simp add: zsl_mtx_adjoint_def zsl_mtx_cofactor_def zsl_mtx_minor_def
          sum_divide_distrib)
    also have "\<dots> = (if i = j then deter_recur ?n ?a else 0) / ?d"
      by (simp only: adjugate_product [OF i j])
    also have "\<dots> = (if i = j then 1 else 0)"
      using d by (simp add: zsl_mtx_deter_recur_def)
    finally show ?thesis .
  qed
  have shape: "sz_rows ?mi' = sz_rows m" "sz_cols ?mi' = sz_cols m"
    using assms(2,3) by simp_all
  show ?thesis
  proof (intro conjI impI)
    show "(\<exists>x. zsl_mtx_inv m mi = Some (Singular, x)) \<longleftrightarrow> ?d = 0"
      by (rule iff)
    show "zsl_mtx_inv m mi = Some (Singular, mi)" if "?d = 0"
      using that by (rule sing)
    show "\<exists>mi'. zsl_mtx_inv m mi = Some (Ok, mi') \<and>
          sz_rows mi' = sz_rows m \<and> sz_cols mi' = sz_cols m \<and>
          (\<forall>i < ?n. \<forall>j < ?n. zsl_mtx_entry mi' i j = zsl_mtx_adjoint m i j / ?d) \<and>
          (\<exists>mc'. zsl_mtx_mult m mi' mc = Some (Ok, mc') \<and>
             (\<forall>i < ?n. \<forall>j < ?n. zsl_mtx_entry mc' i j = (if i = j then 1 else 0)))"
      if d: "?d \<noteq> 0"
    proof (rule exI [of _ ?mi'], intro conjI)
      show "zsl_mtx_inv m mi = Some (Ok, ?mi')" using d by (rule ok)
      show "sz_rows ?mi' = sz_rows m" "sz_cols ?mi' = sz_cols m" by (rule shape)+
      show "\<forall>i < ?n. \<forall>j < ?n. zsl_mtx_entry ?mi' i j = zsl_mtx_adjoint m i j / ?d"
        using ent by blast
      show "\<exists>mc'. zsl_mtx_mult m ?mi' mc = Some (Ok, mc') \<and>
             (\<forall>i < ?n. \<forall>j < ?n. zsl_mtx_entry mc' i j = (if i = j then 1 else 0))"
        using mult ident [OF d] by blast
    qed
  qed
qed

theorem zsl_mtx_inv_spec_witness:
  "zsl_mtx_inv \<lparr>sz_rows = 2, sz_cols = 2, data = [2, 0, 0, 2]\<rparr>
       \<lparr>sz_rows = 2, sz_cols = 2, data = [9, 9, 9, 9]\<rparr> =
     Some (Ok, \<lparr>sz_rows = 2, sz_cols = 2, data = [1 / 2, 0, 0, 1 / 2]\<rparr>) \<and>
   zsl_mtx_mult \<lparr>sz_rows = 2, sz_cols = 2, data = [2, 0, 0, 2]\<rparr>
       \<lparr>sz_rows = 2, sz_cols = 2, data = [1 / 2, 0, 0, 1 / 2]\<rparr>
       \<lparr>sz_rows = 2, sz_cols = 2, data = [7, 7, 7, 7]\<rparr> =
     Some (Ok, \<lparr>sz_rows = 2, sz_cols = 2, data = [1, 0, 0, 1]\<rparr>) \<and>
   zsl_mtx_deter_recur \<lparr>sz_rows = 2, sz_cols = 2, data = [1, 2, 2, 4]\<rparr> = 0 \<and>
   zsl_mtx_inv \<lparr>sz_rows = 2, sz_cols = 2, data = [1, 2, 2, 4]\<rparr>
       \<lparr>sz_rows = 2, sz_cols = 2, data = [9, 9, 9, 9]\<rparr> =
     Some (Singular, \<lparr>sz_rows = 2, sz_cols = 2, data = [9, 9, 9, 9]\<rparr>)"
proof -
  let ?M = "\<lparr>sz_rows = 2, sz_cols = 2, data = [2, 0, 0, 2]\<rparr>"
  let ?S = "\<lparr>sz_rows = 2, sz_cols = 2, data = [1, 2, 2, 4]\<rparr>"
  let ?MI = "\<lparr>sz_rows = 2, sz_cols = 2, data = [9, 9, 9, 9]\<rparr>"
  let ?MC = "\<lparr>sz_rows = 2, sz_cols = 2, data = [7, 7, 7, 7]\<rparr>"
  have dM: "zsl_mtx_deter_recur ?M = 4"
    by (simp add: zsl_mtx_deter_recur_def deter_recur.simps zsl_mtx_entry_def)
  have dS: "zsl_mtx_deter_recur ?S = 0"
    by (simp add: zsl_mtx_deter_recur_def deter_recur.simps zsl_mtx_entry_def)
  have inv: "zsl_mtx_inv ?M ?MI =
      Some (Ok, \<lparr>sz_rows = 2, sz_cols = 2, data = [1 / 2, 0, 0, 1 / 2]\<rparr>)"
    by (simp add: zsl_mtx_inv_def dM upt_4 zsl_mtx_adjoint_def zsl_mtx_cofactor_def
        zsl_mtx_minor_def deter_recur.simps del_row_col_def skip_def zsl_mtx_entry_def)
  have mult: "zsl_mtx_mult ?M \<lparr>sz_rows = 2, sz_cols = 2, data = [1 / 2, 0, 0, 1 / 2]\<rparr> ?MC =
      Some (Ok, \<lparr>sz_rows = 2, sz_cols = 2, data = [1, 0, 0, 1]\<rparr>)"
    by (simp add: zsl_mtx_mult_def upt_4 zsl_mtx_entry_def sum_lessThan_2)
  have w: "wf_mtx ?M" "wf_mtx ?S" "wf_mtx ?MI" "wf_mtx ?MC"
    by (simp_all add: wf_mtx_def)
  have "zsl_mtx_inv ?S ?MI = Some (Singular, ?MI)"
    using zsl_mtx_inv_spec [of ?S ?MI ?MC] w dS by simp
  with inv mult dS show ?thesis
    by (intro conjI)
qed

end
